theory Spec2Isabelle
  imports Complex_Main
begin

section \<open>WaveController: a shallow embedding of \<^verbatim>\<open>src/main.cpp\<close>\<close>

text \<open>
  The program is a sawtooth oscillator (the PortAudio callback \<^verbatim>\<open>sawtoothCallback\<close>),
  a ring buffer of recent samples read by \<^verbatim>\<open>drawWaveform\<close>, three knobs
  (\<^verbatim>\<open>Knob::update\<close>) driven by a hand pointer, and a UDP listener that parses the
  pointer out of datagrams with \<^verbatim>\<open>sscanf\<close>.

  Conventions of the embedding:
  \<^item> C++ \<^verbatim>\<open>float\<close> values are binary32 numbers, modelled as the \<^typ>\<open>real\<close> numbers
    they denote. In the waveform generator (lines 169 to 173) every operation is rounded
    as the hardware rounds it, to the nearest binary32 number with ties to the even
    significand (\<open>float_round\<close>). The phase accumulator (lines 184 to 187), the knob
    arithmetic and the drawing are taken in exact arithmetic: there rounding moves a
    value by a unit in the last place and no statement below depends on it. There are
    no infinities or NaNs: with phase and offset below 1 and a finite amplitude no
    operation of the generator overflows.
  \<^item> C++ \<^verbatim>\<open>int\<close> values are modelled as \<^typ>\<open>int\<close>; the quotient and remainder of C++
    truncate towards zero and are written out (\<open>c_div\<close>, \<open>c_mod\<close>). No sum or product
    of the program comes near \<open>2 ^ 31\<close> while the cursor is inside the buffer, so
    overflow is not modelled. \<^verbatim>\<open>unsigned long\<close> loop counters are \<^typ>\<open>nat\<close>.
  \<^item> Undefined behaviour of the source (indexing a \<^verbatim>\<open>std::vector\<close> out of range, a
    \<^verbatim>\<open>%d\<close> conversion that does not fit an \<^verbatim>\<open>int\<close>) is the value \<open>None\<close>.
\<close>

subsection \<open>Constants (the \<^verbatim>\<open>#define\<close>s of lines 15 to 23)\<close>

definition SAMPLE_RATE :: int where "SAMPLE_RATE = 44100"
definition FRAMES_PER_BUFFER :: nat where "FRAMES_PER_BUFFER = 256"
definition WINDOW_WIDTH :: int where "WINDOW_WIDTH = 1000"
definition WINDOW_HEIGHT :: int where "WINDOW_HEIGHT = 600"
definition WAVE_SAMPLES :: int where "WAVE_SAMPLES = 800"
definition KNOB_RADIUS :: int where "KNOB_RADIUS = 30"
definition KNOB_PANEL_HEIGHT :: int where "KNOB_PANEL_HEIGHT = 120"

subsection \<open>C++ arithmetic\<close>

text \<open>Integer division and remainder of C++: the quotient is truncated towards zero.\<close>

definition c_div :: "int \<Rightarrow> int \<Rightarrow> int" where
  "c_div a b = (if (a < 0) = (b < 0) then \<bar>a\<bar> div \<bar>b\<bar> else - (\<bar>a\<bar> div \<bar>b\<bar>))"

definition c_mod :: "int \<Rightarrow> int \<Rightarrow> int" where
  "c_mod a b = a - b * c_div a b"

text \<open>Conversion of a floating-point value to \<^verbatim>\<open>int\<close>: the fractional part is discarded.\<close>

definition c_trunc :: "real \<Rightarrow> int" where
  "c_trunc r = (if 0 \<le> r then \<lfloor>r\<rfloor> else \<lceil>r\<rceil>)"

text \<open>
  Rounding to binary32. A real number is rounded to the nearest multiple of the unit in
  the last place of its binade, \<open>2 ^ (e - 23)\<close> where \<open>2 ^ e \<le> \<bar>x\<bar> < 2 ^ (e + 1)\<close>; below
  \<open>2 ^ (- 126)\<close> the numbers are subnormal and the unit stays \<open>2 ^ (- 149)\<close>. Of two
  nearest multiples the even one is taken. Magnitudes above the largest binary32 number
  would become infinite; that is not modelled.
\<close>

definition round_even :: "real \<Rightarrow> int" where
  "round_even r =
     (let f = \<lfloor>r\<rfloor>; d = r - real_of_int f
      in if d < 1 / 2 then f else if d > 1 / 2 then f + 1 else if even f then f else f + 1)"

definition float_exponent :: "real \<Rightarrow> int" where
  "float_exponent x = max (- 126) \<lfloor>log 2 \<bar>x\<bar>\<rfloor>"

definition float_round :: "real \<Rightarrow> real" where
  "float_round x =
     (if x = 0 then 0
      else let q = 2 powi (float_exponent x - 23)
           in real_of_int (round_even (x / q)) * q)"

text \<open>
  The binary32 numbers: the finite values a \<^verbatim>\<open>float\<close> can hold, which rounding leaves as
  they are, up to \<^verbatim>\<open>FLT_MAX\<close>.
\<close>

definition FLT_MAX :: real where
  "FLT_MAX = (2 - 1 / 2 ^ 23) * 2 ^ 127"

definition is_float :: "real \<Rightarrow> bool" where
  "is_float x \<longleftrightarrow> float_round x = x \<and> \<bar>x\<bar> \<le> FLT_MAX"

text \<open>The operators \<^verbatim>\<open>+\<close>, \<^verbatim>\<open>-\<close> and \<^verbatim>\<open>*\<close> on \<^verbatim>\<open>float\<close>.\<close>

definition fadd :: "real \<Rightarrow> real \<Rightarrow> real" where
  "fadd a b = float_round (a + b)"

definition fsub :: "real \<Rightarrow> real \<Rightarrow> real" where
  "fsub a b = float_round (a - b)"

definition fmul :: "real \<Rightarrow> real \<Rightarrow> real" where
  "fmul a b = float_round (a * b)"

text \<open>
  \<^verbatim>\<open>fmod(x, y)\<close> is \<open>x - n * y\<close> where \<open>n\<close> is \<open>x / y\<close> truncated towards zero, so
  the result has the sign of \<open>x\<close>. The program only calls it with \<open>y = 1\<close>. The result
  of \<^verbatim>\<open>fmod\<close> on two binary32 numbers is a binary32 number: it is not rounded.
\<close>

definition fmod :: "real \<Rightarrow> real \<Rightarrow> real" where
  "fmod a b = a - real_of_int (c_trunc (a / b)) * b"

subsection \<open>The knob (\<^verbatim>\<open>struct Knob\<close>, lines 25 to 59)\<close>

text \<open>
  The fields \<^verbatim>\<open>x\<close>, \<^verbatim>\<open>y\<close> and \<^verbatim>\<open>value\<close> are named \<open>knob_x\<close>, \<open>knob_y\<close> and
  \<open>knob_value\<close>; the other fields keep their names.
\<close>

record Knob =
  knob_x :: real
  knob_y :: real
  knob_value :: real
  minValue :: real
  maxValue :: real
  label :: string
  isDragging :: bool
  dragStartY :: real
  dragStartValue :: real

text \<open>The constructor of line 34.\<close>

definition Knob_new :: "real \<Rightarrow> real \<Rightarrow> real \<Rightarrow> real \<Rightarrow> real \<Rightarrow> string \<Rightarrow> Knob" where
  "Knob_new px py mn mx initial lbl =
     \<lparr>knob_x = px, knob_y = py, knob_value = initial, minValue = mn, maxValue = mx,
      label = lbl, isDragging = False, dragStartY = 0, dragStartValue = 0\<rparr>"

text \<open>The distance of the pointer from the centre of the knob (lines 39 to 41).\<close>

definition distance :: "int \<Rightarrow> int \<Rightarrow> Knob \<Rightarrow> real" where
  "distance mouseX mouseY k =
     (let dx = real_of_int mouseX - knob_x k;
          dy = real_of_int mouseY - knob_y k
      in sqrt (dx * dx + dy * dy))"

text \<open>The first \<^verbatim>\<open>if\<close> of \<^verbatim>\<open>Knob::update\<close> (lines 43 to 47): a drag begins.\<close>

definition begin_drag :: "int \<Rightarrow> int \<Rightarrow> bool \<Rightarrow> Knob \<Rightarrow> Knob" where
  "begin_drag mouseX mouseY mouseDown k =
     (if mouseDown \<and> distance mouseX mouseY k \<le> real_of_int KNOB_RADIUS \<and> \<not> isDragging k
      then k\<lparr>isDragging := True, dragStartY := real_of_int mouseY,
             dragStartValue := knob_value k\<rparr>
      else k)"

text \<open>The second \<^verbatim>\<open>if\<close> (lines 49 to 58): the value follows the drag, or the drag ends.\<close>

definition drag :: "int \<Rightarrow> bool \<Rightarrow> Knob \<Rightarrow> Knob" where
  "drag mouseY mouseDown k =
     (if isDragging k then
        (if mouseDown then
           (let deltaY = dragStartY k - real_of_int mouseY;
                sensitivity = (maxValue k - minValue k) / 100;
                v = dragStartValue k + deltaY * sensitivity
            in k\<lparr>knob_value := max (minValue k) (min (maxValue k) v)\<rparr>)
         else k\<lparr>isDragging := False\<rparr>)
      else k)"

definition Knob_update :: "int \<Rightarrow> int \<Rightarrow> bool \<Rightarrow> Knob \<Rightarrow> Knob" where
  "Knob_update mouseX mouseY mouseDown k =
     drag mouseY mouseDown (begin_drag mouseX mouseY mouseDown k)"

text \<open>
  The interaction state machine as the specification words it, for comparison with
  \<open>Knob_update\<close>: the states are Idle and Dragging; Idle becomes Dragging when the
  engagement \<^emph>\<open>becomes\<close> true (it was false at the previous update and is true now) with
  the pointer within the hit radius; Dragging becomes Idle when the engagement becomes
  false; there are no other transitions.
\<close>

datatype knob_state = Idle | Dragging

definition state_of :: "Knob \<Rightarrow> knob_state" where
  "state_of k = (if isDragging k then Dragging else Idle)"

definition spec_transition :: "bool \<Rightarrow> bool \<Rightarrow> bool \<Rightarrow> knob_state \<Rightarrow> knob_state" where
  "spec_transition engaged_before engaged within_radius st =
     (case st of
        Idle \<Rightarrow> if \<not> engaged_before \<and> engaged \<and> within_radius then Dragging else Idle
      | Dragging \<Rightarrow> if engaged_before \<and> \<not> engaged then Idle else Dragging)"

subsection \<open>The oscillator and its ring buffer (\<^verbatim>\<open>struct SawtoothData\<close>, lines 142 to 153)\<close>

text \<open>
  The mutex \<^verbatim>\<open>bufferMutex\<close> carries no data; the places where it is taken and released
  are modelled further down, in the trace of the callback's effects.
\<close>

record SawtoothData =
  frequency :: real
  phase :: real
  phaseOffset :: real
  amplitude :: real
  waveBuffer :: "real list"
  bufferIndex :: int

definition SawtoothData_new :: SawtoothData where
  "SawtoothData_new =
     \<lparr>frequency = 440, phase = 0, phaseOffset = 0, amplitude = float_round (3 / 10),
      waveBuffer = replicate (nat WAVE_SAMPLES) 0, bufferIndex = 0\<rparr>"

subsection \<open>The audio callback (\<^verbatim>\<open>sawtoothCallback\<close>, lines 156 to 191)\<close>

text \<open>
  Lines 169 and 170: the phase with its offset, folded into one period. The sum is
  rounded before \<^verbatim>\<open>fmod\<close> sees it, and so is the sum with \<^verbatim>\<open>1.0f\<close>.
\<close>

definition adjustedPhase :: "real \<Rightarrow> real \<Rightarrow> real" where
  "adjustedPhase p off =
     (let a = fmod (fadd p off) 1 in if a < 0 then fadd a 1 else a)"

text \<open>Line 173: the sawtooth sample, \<^verbatim>\<open>(2.0f * adjustedPhase - 1.0f) * amplitude\<close>.\<close>

definition sawtooth :: "real \<Rightarrow> real \<Rightarrow> real \<Rightarrow> real" where
  "sawtooth p off amp = fmul (fsub (fmul 2 (adjustedPhase p off)) 1) amp"

definition gen_sample :: "SawtoothData \<Rightarrow> real" where
  "gen_sample d = sawtooth (phase d) (phaseOffset d) (amplitude d)"

text \<open>
  Lines 176 and 177: one write into the ring buffer. \<^verbatim>\<open>waveBuffer[bufferIndex]\<close> is
  \<^verbatim>\<open>std::vector::operator[]\<close>, undefined outside the vector.
\<close>

definition ring_write :: "real \<Rightarrow> SawtoothData \<Rightarrow> SawtoothData option" where
  "ring_write sample d =
     (if 0 \<le> bufferIndex d \<and> bufferIndex d < int (length (waveBuffer d))
      then Some (d\<lparr>waveBuffer := (waveBuffer d)[nat (bufferIndex d) := sample],
                   bufferIndex := c_mod (bufferIndex d + 1) WAVE_SAMPLES\<rparr>)
      else None)"

text \<open>Lines 184 to 187: the phase moves on by one sample and wraps once.\<close>

definition advance :: "real \<Rightarrow> real \<Rightarrow> real" where
  "advance f p =
     (let p' = p + f / real_of_int SAMPLE_RATE in if p' \<ge> 1 then p' - 1 else p')"

definition advance_phase :: "SawtoothData \<Rightarrow> SawtoothData" where
  "advance_phase d = d\<lparr>phase := advance (frequency d) (phase d)\<rparr>"

text \<open>
  One pass through the body of the \<^verbatim>\<open>for\<close> loop, for frame \<open>i\<close>: the new state and
  the sample that is stored into both output channels.
\<close>

definition frame :: "nat \<Rightarrow> SawtoothData \<Rightarrow> (SawtoothData \<times> real) option" where
  "frame i d =
     (let sample = gen_sample d in
      case (if i mod 4 = 0 then ring_write sample d else Some d) of
        None \<Rightarrow> None
      | Some d1 \<Rightarrow> Some (advance_phase d1, sample))"

text \<open>
  The loop of line 167. \<open>out\<close> is what has been stored through the pointer \<^verbatim>\<open>out\<close> so
  far: two floats per frame.
\<close>

function callback_loop ::
  "nat \<Rightarrow> nat \<Rightarrow> SawtoothData \<Rightarrow> real list \<Rightarrow> (SawtoothData \<times> real list) option" where
  "callback_loop i framesPerBuffer d out =
     (if i < framesPerBuffer then
        (case frame i d of
           None \<Rightarrow> None
         | Some (d', sample) \<Rightarrow> callback_loop (Suc i) framesPerBuffer d' (out @ [sample, sample]))
      else Some (d, out))"
  by pat_completeness auto
termination
  by (relation "measure (\<lambda>(i, n, d, out). n - i)") auto

declare callback_loop.simps [simp del]

definition sawtoothCallback :: "nat \<Rightarrow> SawtoothData \<Rightarrow> (SawtoothData \<times> real list) option" where
  "sawtoothCallback framesPerBuffer d = callback_loop 0 framesPerBuffer d []"

subsection \<open>The visualization reader (\<^verbatim>\<open>drawWaveform\<close>, lines 193 to 216)\<close>

definition vec_at :: "real list \<Rightarrow> int \<Rightarrow> real option" where
  "vec_at v i = (if 0 \<le> i \<and> i < int (length v) then Some (v ! nat i) else None)"

text \<open>Lines 203 to 207: the two samples read in iteration \<open>i\<close>.\<close>

definition read_pair :: "int \<Rightarrow> SawtoothData \<Rightarrow> (real \<times> real) option" where
  "read_pair i d =
     (let sampleIndex1 = c_mod (bufferIndex d + i) WAVE_SAMPLES;
          sampleIndex2 = c_mod (bufferIndex d + i + 1) WAVE_SAMPLES
      in case vec_at (waveBuffer d) sampleIndex1 of
           None \<Rightarrow> None
         | Some sample1 \<Rightarrow>
             (case vec_at (waveBuffer d) sampleIndex2 of
                None \<Rightarrow> None
              | Some sample2 \<Rightarrow> Some (sample1, sample2)))"

text \<open>
  Lines 198 to 200 and 209 to 212: the line drawn for the two samples. The conversions to
  \<^verbatim>\<open>int\<close> discard the fractional part; that they are undefined for values outside the
  range of \<^verbatim>\<open>int\<close> is not modelled (no theorem below is about the coordinates).
\<close>

definition line_of :: "int \<Rightarrow> real \<times> real \<Rightarrow> int \<times> int \<times> int \<times> int" where
  "line_of i ss =
     (let waveAreaHeight = WINDOW_HEIGHT - KNOB_PANEL_HEIGHT;
          centerY = c_div waveAreaHeight 2;
          scaleY = c_trunc (real_of_int waveAreaHeight * (4 / 10));
          x1 = c_div (i * WINDOW_WIDTH) WAVE_SAMPLES;
          y1 = c_trunc (real_of_int centerY - fst ss * real_of_int scaleY);
          x2 = c_div ((i + 1) * WINDOW_WIDTH) WAVE_SAMPLES;
          y2 = c_trunc (real_of_int centerY - snd ss * real_of_int scaleY)
      in (x1, y1, x2, y2))"

text \<open>
  The loop of line 202. It collects, for every iteration, the pair of samples read and
  the line handed to \<^verbatim>\<open>SDL_RenderDrawLine\<close>. The data is only read.
\<close>

function drawWaveform_loop ::
  "int \<Rightarrow> SawtoothData \<Rightarrow> ((real \<times> real) \<times> (int \<times> int \<times> int \<times> int)) list
     \<Rightarrow> ((real \<times> real) \<times> (int \<times> int \<times> int \<times> int)) list option" where
  "drawWaveform_loop i d acc =
     (if i < WAVE_SAMPLES - 1 then
        (case read_pair i d of
           None \<Rightarrow> None
         | Some ss \<Rightarrow> drawWaveform_loop (i + 1) d (acc @ [(ss, line_of i ss)]))
      else Some acc)"
  by pat_completeness auto
termination
  by (relation "measure (\<lambda>(i, d, acc). nat (WAVE_SAMPLES - 1 - i))") auto

declare drawWaveform_loop.simps [simp del]

definition drawWaveform :: "SawtoothData \<Rightarrow> (int \<times> int \<times> int \<times> int) list option" where
  "drawWaveform d = map_option (map snd) (drawWaveform_loop 0 d [])"

definition drawWaveform_reads :: "SawtoothData \<Rightarrow> (real \<times> real) list option" where
  "drawWaveform_reads d = map_option (map fst) (drawWaveform_loop 0 d [])"

text \<open>
  The samples along the polyline: the first sample of every line, then the second
  sample of the last line.
\<close>

definition polyline :: "(real \<times> real) list \<Rightarrow> real list" where
  "polyline ps = (if ps = [] then [] else map fst ps @ [snd (last ps)])"

text \<open>A sequence of writes into the ring buffer, oldest first.\<close>

fun ring_writes :: "real list \<Rightarrow> SawtoothData \<Rightarrow> SawtoothData option" where
  "ring_writes [] d = Some d"
| "ring_writes (s # ss) d =
     (case ring_write s d of None \<Rightarrow> None | Some d' \<Rightarrow> ring_writes ss d')"

text \<open>
  What the constructor of \<^verbatim>\<open>SawtoothData\<close> establishes about the ring buffer: the
  vector has \<^verbatim>\<open>WAVE_SAMPLES\<close> entries and the cursor points into it.
\<close>

definition ring_ok :: "SawtoothData \<Rightarrow> bool" where
  "ring_ok d \<longleftrightarrow>
     length (waveBuffer d) = nat WAVE_SAMPLES \<and> 0 \<le> bufferIndex d \<and> bufferIndex d < WAVE_SAMPLES"

text \<open>The output block for a list of samples: each sample goes to both channels.\<close>

definition stereo :: "real list \<Rightarrow> real list" where
  "stereo ss = concat (map (\<lambda>s. [s, s]) ss)"

text \<open>
  The samples of \<open>n\<close> consecutive frames, when the three parameters stay as they are in
  \<open>d\<close>: frame \<open>k\<close> is generated at the phase reached after \<open>k\<close> advances.
\<close>

definition samples_from :: "SawtoothData \<Rightarrow> nat \<Rightarrow> real list" where
  "samples_from d n =
     map (\<lambda>k. sawtooth ((advance (frequency d) ^^ k) (phase d)) (phaseOffset d) (amplitude d))
       [0..<n]"

subsection \<open>The pointer listener (\<^verbatim>\<open>udpListener\<close>, lines 256 to 280)\<close>

text \<open>The three atomics \<^verbatim>\<open>handX\<close>, \<^verbatim>\<open>handY\<close> and \<^verbatim>\<open>handPinch\<close> of lines 256 and 257.\<close>

record Hand =
  handX :: int
  handY :: int
  handPinch :: bool

definition Hand_new :: Hand where
  "Hand_new = \<lparr>handX = 0, handY = 0, handPinch = False\<rparr>"

text \<open>
  \<^verbatim>\<open>sscanf\<close> as the C standard describes it, for the directives the program uses. A
  \<^verbatim>\<open>%d\<close> skips white space, then takes an optional sign and the longest run of decimal
  digits. It fails with an input failure when the input ends before any character of
  the item, and with a matching failure when the item is not a number. A value that does
  not fit an \<^verbatim>\<open>int\<close> is undefined behaviour.
\<close>

definition isspace :: "char \<Rightarrow> bool" where
  "isspace c \<longleftrightarrow> c = CHR '' '' \<or> (9 \<le> (of_char c :: nat) \<and> (of_char c :: nat) \<le> 13)"

definition isdigit :: "char \<Rightarrow> bool" where
  "isdigit c \<longleftrightarrow> 48 \<le> (of_char c :: nat) \<and> (of_char c :: nat) \<le> 57"

definition decimal :: "string \<Rightarrow> int" where
  "decimal ds = foldl (\<lambda>acc c. 10 * acc + (of_char c - 48)) 0 ds"

definition INT_MIN :: int where "INT_MIN = - 2147483648"
definition INT_MAX :: int where "INT_MAX = 2147483647"

datatype conversion = InputFailure | MatchingFailure | Converted int string | NotRepresentable

definition scan_d :: "string \<Rightarrow> conversion" where
  "scan_d s =
     (let s1 = dropWhile isspace s in
      if s1 = [] then InputFailure
      else
        let negative = (hd s1 = CHR ''-'');
            s2 = (if hd s1 = CHR ''-'' \<or> hd s1 = CHR ''+'' then tl s1 else s1);
            ds = takeWhile isdigit s2;
            v = (if negative then - decimal ds else decimal ds)
        in if ds = [] then MatchingFailure
           else if INT_MIN \<le> v \<and> v \<le> INT_MAX then Converted v (dropWhile isdigit s2)
           else NotRepresentable)"

datatype directive = Conv_d | Literal char

text \<open>
  The value returned when the input ends: \<^verbatim>\<open>EOF\<close> (which is \<open>-1\<close>) before the first
  conversion, the number of conversions after it.
\<close>

definition at_end :: "int list \<Rightarrow> int" where
  "at_end vs = (if vs = [] then - 1 else int (length vs))"

text \<open>
  The result is the value returned by \<^verbatim>\<open>sscanf\<close> and the values assigned, in the
  order of the arguments; \<open>None\<close> is undefined behaviour. A literal character of the
  format must be the next character of the input: no white space is skipped for it.
\<close>

fun sscanf :: "directive list \<Rightarrow> string \<Rightarrow> int list \<Rightarrow> (int \<times> int list) option" where
  "sscanf [] s vs = Some (int (length vs), vs)"
| "sscanf (Literal c # fmt) s vs =
     (case s of
        [] \<Rightarrow> Some (at_end vs, vs)
      | h # t \<Rightarrow> if h = c then sscanf fmt t vs else Some (int (length vs), vs))"
| "sscanf (Conv_d # fmt) s vs =
     (case scan_d s of
        InputFailure \<Rightarrow> Some (at_end vs, vs)
      | MatchingFailure \<Rightarrow> Some (int (length vs), vs)
      | NotRepresentable \<Rightarrow> None
      | Converted v rest \<Rightarrow> sscanf fmt rest (vs @ [v]))"

text \<open>The format \<^verbatim>\<open>"%d,%d,%d"\<close> of line 272.\<close>

definition FORMAT :: "directive list" where
  "FORMAT = [Conv_d, Literal (CHR '',''), Conv_d, Literal (CHR '',''), Conv_d]"

text \<open>
  Lines 268 to 270: \<^verbatim>\<open>recv\<close> stores at most 63 bytes of the datagram, the rest is
  dropped, and the buffer is closed with a zero byte; \<^verbatim>\<open>sscanf\<close> reads the buffer as a
  C string, up to its first zero byte.
\<close>

definition c_string :: "string \<Rightarrow> string" where
  "c_string payload = takeWhile (\<lambda>c. c \<noteq> CHR 0x00) (take 63 payload)"

text \<open>
  One pass through the loop of line 267, for a datagram with the given payload. An empty
  datagram has \<^verbatim>\<open>len = 0\<close> and is skipped, as is a failed \<^verbatim>\<open>recv\<close>. \<^verbatim>\<open>pinch\<close> starts as
  0 and is overwritten by the third conversion, if there is one.
\<close>

definition receive :: "string \<Rightarrow> Hand \<Rightarrow> Hand option" where
  "receive payload h =
     (let len = min (length payload) 63 in
      if len > 0 then
        (case sscanf FORMAT (c_string payload) [] of
           None \<Rightarrow> None
         | Some (n, vs) \<Rightarrow>
             if n \<ge> 2 then
               (let x = vs ! 0; y = vs ! 1; pinch = (if n \<ge> 3 then vs ! 2 else 0)
                in Some \<lparr>handX = x, handY = y, handPinch = (pinch = 1)\<rparr>)
             else Some h)
      else Some h)"

subsection \<open>The oscillator state under the two threads\<close>

text \<open>
  What can happen to a \<^verbatim>\<open>SawtoothData\<close> while the program runs: the audio thread runs the
  callback for a block of frames; the main loop draws the waveform (line 413), which
  only reads; and the main loop stores a knob value into one of the three parameters
  (lines 395, 398 and 401). The callback and the drawing exclude each other through
  \<^verbatim>\<open>bufferMutex\<close>, so they are steps of their own.
\<close>

datatype event =
    Callback nat
  | Draw
  | SetFrequency real
  | SetPhaseOffset real
  | SetAmplitude real

fun step :: "event \<Rightarrow> SawtoothData \<Rightarrow> SawtoothData option" where
  "step (Callback framesPerBuffer) d = map_option fst (sawtoothCallback framesPerBuffer d)"
| "step Draw d = map_option (\<lambda>lines. d) (drawWaveform d)"
| "step (SetFrequency v) d = Some (d\<lparr>frequency := v\<rparr>)"
| "step (SetPhaseOffset v) d = Some (d\<lparr>phaseOffset := v\<rparr>)"
| "step (SetAmplitude v) d = Some (d\<lparr>amplitude := v\<rparr>)"

fun run :: "event list \<Rightarrow> SawtoothData \<Rightarrow> SawtoothData option" where
  "run [] d = Some d"
| "run (e # es) d = (case step e d of None \<Rightarrow> None | Some d' \<Rightarrow> run es d')"

subsection \<open>The effects of the callback, with the lock\<close>

text \<open>
  The callback's stores in the order in which the source performs them, together with
  the two operations on \<^verbatim>\<open>bufferMutex\<close>: the \<^verbatim>\<open>std::lock_guard\<close> of line 165 locks the
  mutex where it is declared, before the loop, and unlocks it when the function returns
  (line 190). The stores are those of line 176 (\<open>Store\<close>, into the vector), line 177
  (\<open>SetCursor\<close>), lines 180 and 181 (\<open>Output\<close>) and lines 184 to 187 (\<open>SetPhase\<close>).
\<close>

datatype effect =
    Acquire
  | Release
  | Store int real
  | SetCursor int
  | Output real
  | SetPhase real

definition frame_effects :: "nat \<Rightarrow> SawtoothData \<Rightarrow> effect list" where
  "frame_effects i d =
     (let sample = gen_sample d in
      (if i mod 4 = 0
       then [Store (bufferIndex d) sample, SetCursor (c_mod (bufferIndex d + 1) WAVE_SAMPLES)]
       else [])
      @ [Output sample, Output sample, SetPhase (advance (frequency d) (phase d))])"

function loop_effects :: "nat \<Rightarrow> nat \<Rightarrow> SawtoothData \<Rightarrow> effect list option" where
  "loop_effects i framesPerBuffer d =
     (if i < framesPerBuffer then
        (case frame i d of
           None \<Rightarrow> None
         | Some (d', sample) \<Rightarrow>
             map_option (\<lambda>es. frame_effects i d @ es) (loop_effects (Suc i) framesPerBuffer d'))
      else Some [])"
  by pat_completeness auto
termination
  by (relation "measure (\<lambda>(i, n, d). n - i)") auto

declare loop_effects.simps [simp del]

definition sawtoothCallback_effects :: "nat \<Rightarrow> SawtoothData \<Rightarrow> effect list option" where
  "sawtoothCallback_effects framesPerBuffer d =
     map_option (\<lambda>es. Acquire # es @ [Release]) (loop_effects 0 framesPerBuffer d)"

text \<open>What an effect does to the state; the output stores go to the audio buffer.\<close>

fun replay :: "effect \<Rightarrow> SawtoothData \<Rightarrow> SawtoothData" where
  "replay (Store i v) d = d\<lparr>waveBuffer := (waveBuffer d)[nat i := v]\<rparr>"
| "replay (SetCursor c) d = d\<lparr>bufferIndex := c\<rparr>"
| "replay (SetPhase p) d = d\<lparr>phase := p\<rparr>"
| "replay e d = d"

text \<open>The values stored into the audio buffer, and the number of phase updates.\<close>

fun outputs :: "effect list \<Rightarrow> real list" where
  "outputs [] = []"
| "outputs (Output v # es) = v # outputs es"
| "outputs (e # es) = outputs es"

fun phase_updates :: "effect list \<Rightarrow> nat" where
  "phase_updates [] = 0"
| "phase_updates (SetPhase p # es) = Suc (phase_updates es)"
| "phase_updates (e # es) = phase_updates es"

text \<open>
  The critical sections of a trace: for every acquisition of the lock, the effects
  performed until it is released. The second argument is the section that is open.
\<close>

fun sections :: "effect list \<Rightarrow> effect list option \<Rightarrow> effect list list" where
  "sections [] cur = (case cur of None \<Rightarrow> [] | Some c \<Rightarrow> [c])"
| "sections (Acquire # es) cur = sections es (Some [])"
| "sections (Release # es) cur =
     (case cur of None \<Rightarrow> sections es None | Some c \<Rightarrow> c # sections es None)"
| "sections (e # es) cur =
     (case cur of None \<Rightarrow> sections es None | Some c \<Rightarrow> sections es (Some (c @ [e])))"

text \<open>
  The locking discipline as the specification words it: the lock is held for a single
  buffer write and cursor increment, and for nothing more.
\<close>

fun single_write :: "effect list \<Rightarrow> bool" where
  "single_write [Store i v, SetCursor c] = True"
| "single_write es = False"

definition minimal_locking :: "effect list \<Rightarrow> bool" where
  "minimal_locking tr = list_all single_write (sections tr None)"

subsection \<open>The main loop (\<^verbatim>\<open>main\<close>, lines 335 to 447)\<close>

datatype sdl_event =
    SDL_QUIT
  | SDL_KEYDOWN int
  | SDL_MOUSEBUTTONDOWN int
  | SDL_MOUSEBUTTONUP int
  | SDL_MOUSEMOTION int int
  | SDL_OTHER

definition SDLK_ESCAPE :: int where "SDLK_ESCAPE = 27"
definition SDL_BUTTON_LEFT :: int where "SDL_BUTTON_LEFT = 1"

text \<open>The variables of \<^verbatim>\<open>main\<close> that the loop reads and writes.\<close>

record MainState =
  knobs :: "Knob list"
  data :: SawtoothData
  mouseX :: int
  mouseY :: int
  mouseDown :: bool
  running :: bool

text \<open>Lines 336 to 341 and 355 to 358.\<close>

definition main_new :: MainState where
  "main_new =
     (let knobY = real_of_int (WINDOW_HEIGHT - c_div KNOB_PANEL_HEIGHT 2) in
      \<lparr>knobs = [Knob_new 150 knobY 50 2000 440 ''Frequency'',
                Knob_new 350 knobY 0 1 0 ''Phase'',
                Knob_new 550 knobY 0 1 (float_round (3 / 10)) ''Amplitude''],
       data = SawtoothData_new, mouseX = 0, mouseY = 0, mouseDown = False, running = True\<rparr>)"

text \<open>Lines 362 to 385: one event of the queue.\<close>

definition handle_event :: "sdl_event \<Rightarrow> MainState \<Rightarrow> MainState" where
  "handle_event e s =
     (case e of
        SDL_QUIT \<Rightarrow> s\<lparr>running := False\<rparr>
      | SDL_KEYDOWN key \<Rightarrow> if key = SDLK_ESCAPE then s\<lparr>running := False\<rparr> else s
      | SDL_MOUSEBUTTONDOWN button \<Rightarrow>
          if button = SDL_BUTTON_LEFT then s\<lparr>mouseDown := True\<rparr> else s
      | SDL_MOUSEBUTTONUP button \<Rightarrow>
          if button = SDL_BUTTON_LEFT then s\<lparr>mouseDown := False\<rparr> else s
      | SDL_MOUSEMOTION ex ey \<Rightarrow> s\<lparr>mouseX := ex, mouseY := ey\<rparr>
      | SDL_OTHER \<Rightarrow> s)"

text \<open>Line 361: the queue is emptied.\<close>

fun poll_events :: "sdl_event list \<Rightarrow> MainState \<Rightarrow> MainState" where
  "poll_events [] s = s"
| "poll_events (e # es) s = poll_events es (handle_event e s)"

text \<open>
  Lines 389 to 404. \<open>hand i\<close> is what the three atomics hold when knob \<open>i\<close> is updated;
  the listener may change them between two knobs.
\<close>

function knobs_loop :: "nat \<Rightarrow> (nat \<Rightarrow> Hand) \<Rightarrow> MainState \<Rightarrow> MainState" where
  "knobs_loop i hand s =
     (if i < length (knobs s) then
        knobs_loop (Suc i) hand
          (let k = Knob_update (handX (hand i)) (handY (hand i)) (handPinch (hand i)) (knobs s ! i);
               d = data s
           in s\<lparr>knobs := (knobs s)[i := k],
                data := (if i = 0 then d\<lparr>frequency := knob_value k\<rparr>
                         else if i = 1 then d\<lparr>phaseOffset := knob_value k\<rparr>
                         else if i = 2 then d\<lparr>amplitude := knob_value k\<rparr>
                         else d)\<rparr>)
      else s)"
  by pat_completeness auto
termination
  by (relation "measure (\<lambda>(i, hand, s). length (knobs s) - i)") (auto simp add: Let_def)

declare knobs_loop.simps [simp del]

text \<open>
  One pass through the body of the main loop. The drawing of lines 406 to 444 changes
  none of these variables.
\<close>

definition main_iteration :: "sdl_event list \<Rightarrow> (nat \<Rightarrow> Hand) \<Rightarrow> MainState \<Rightarrow> MainState" where
  "main_iteration events hand s = knobs_loop 0 hand (poll_events events s)"

text \<open>
  The main loop, for the iterations whose inputs are given: the events queued and the
  pointer values read in each.
\<close>

fun main_loop :: "(sdl_event list \<times> (nat \<Rightarrow> Hand)) list \<Rightarrow> MainState \<Rightarrow> MainState" where
  "main_loop [] s = s"
| "main_loop (input # inputs) s =
     (if running s then main_loop inputs (main_iteration (fst input) (snd input) s) else s)"

text \<open>The events that carry the mouse position or the state of a mouse button.\<close>

fun is_mouse :: "sdl_event \<Rightarrow> bool" where
  "is_mouse (SDL_MOUSEBUTTONDOWN button) = True"
| "is_mouse (SDL_MOUSEBUTTONUP button) = True"
| "is_mouse (SDL_MOUSEMOTION ex ey) = True"
| "is_mouse e = False"

text \<open>An input of the main loop without what the mouse contributed to it.\<close>

definition without_mouse ::
  "(sdl_event list \<times> (nat \<Rightarrow> Hand)) list \<Rightarrow> (sdl_event list \<times> (nat \<Rightarrow> Hand)) list" where
  "without_mouse inputs = map (\<lambda>input. (filter (\<lambda>e. \<not> is_mouse e) (fst input), snd input)) inputs"

section \<open>Properties\<close>

subsection \<open>Arithmetic of the embedding\<close>

lemma c_div_nonneg: "0 \<le> a \<Longrightarrow> 0 < b \<Longrightarrow> c_div a b = a div b"
  by (simp add: c_div_def)

lemma c_mod_nonneg: "0 \<le> a \<Longrightarrow> 0 < b \<Longrightarrow> c_mod a b = a mod b"
  by (simp add: c_mod_def c_div_nonneg minus_mult_div_eq_mod)

lemma fmod_one: "fmod a 1 = (if 0 \<le> a then a - real_of_int \<lfloor>a\<rfloor> else a - real_of_int \<lceil>a\<rceil>)"
  by (simp add: fmod_def c_trunc_def)

subsection \<open>Rounding to binary32\<close>

lemma round_even_of_int [simp]: "round_even (real_of_int n) = n"
  by (simp add: round_even_def)

lemma round_even_ge_floor: "\<lfloor>r\<rfloor> \<le> round_even r"
  by (simp add: round_even_def Let_def)

lemma round_even_le_floor1: "round_even r \<le> \<lfloor>r\<rfloor> + 1"
  by (simp add: round_even_def Let_def)

lemma round_even_mono:
  assumes "r \<le> s"
  shows "round_even r \<le> round_even s"
proof (cases "\<lfloor>r\<rfloor> = \<lfloor>s\<rfloor>")
  case True
  with assms have "r - real_of_int \<lfloor>r\<rfloor> \<le> s - real_of_int \<lfloor>s\<rfloor>" by simp
  with True show ?thesis by (auto simp add: round_even_def Let_def)
next
  case False
  moreover from assms have "\<lfloor>r\<rfloor> \<le> \<lfloor>s\<rfloor>" by (rule floor_mono)
  ultimately have "\<lfloor>r\<rfloor> + 1 \<le> \<lfloor>s\<rfloor>" by simp
  with round_even_le_floor1 [of r] round_even_ge_floor [of s] show ?thesis by linarith
qed

lemma round_even_minus: "round_even (- r) = - round_even r"
proof (cases "r \<in> \<int>")
  case True
  then obtain n where "r = real_of_int n" by (auto elim: Ints_cases)
  then have "round_even (- r) = round_even (real_of_int (- n))" by simp
  also have "\<dots> = - n" by (rule round_even_of_int)
  finally show ?thesis using \<open>r = real_of_int n\<close> by simp
next
  case False
  then have ne: "r \<noteq> real_of_int \<lfloor>r\<rfloor>" by (metis Ints_of_int)
  then have c: "\<lceil>r\<rceil> = \<lfloor>r\<rfloor> + 1" by (simp add: ceiling_altdef)
  have "\<lfloor>- r\<rfloor> = - \<lceil>r\<rceil>" by (rule floor_minus)
  with c have f: "\<lfloor>- r\<rfloor> = - \<lfloor>r\<rfloor> - 1" by linarith
  have "real_of_int \<lfloor>r\<rfloor> \<le> r" by (rule of_int_floor_le)
  with ne have lt: "real_of_int \<lfloor>r\<rfloor> < r" by (metis order_less_le)
  show ?thesis
    using f lt by (auto simp add: round_even_def Let_def)
qed

lemma round_even_0 [simp]: "round_even 0 = 0"
  by (simp add: round_even_def)

lemma round_even_nonneg: "0 \<le> r \<Longrightarrow> 0 \<le> round_even r"
  using round_even_mono [of 0 r] by simp

lemma two_powi_pos [simp]: "0 < (2 :: real) powi k"
  by simp

lemma two_powi_mono: "j \<le> k \<Longrightarrow> (2 :: real) powi j \<le> 2 powi k"
  by (rule power_int_increasing) simp_all

lemma two_powr_int: "2 powr real_of_int k = 2 powi k"
  by (simp add: powr_real_of_int')

lemma two_powr_int1: "2 powr (real_of_int k + 1) = 2 powi (k + 1)"
proof -
  have "real_of_int k + 1 = real_of_int (k + 1)" by simp
  then show ?thesis by (simp only: two_powr_int)
qed

lemma floor_log2_bounds:
  assumes "x \<noteq> 0"
  shows "2 powi \<lfloor>log 2 \<bar>x\<bar>\<rfloor> \<le> \<bar>x\<bar>" "\<bar>x\<bar> < 2 powi (\<lfloor>log 2 \<bar>x\<bar>\<rfloor> + 1)"
proof -
  from assms have pos: "0 < \<bar>x\<bar>" by simp
  have "2 powr real_of_int \<lfloor>log 2 \<bar>x\<bar>\<rfloor> \<le> \<bar>x\<bar>
      \<and> \<bar>x\<bar> < 2 powr real_of_int (\<lfloor>log 2 \<bar>x\<bar>\<rfloor> + 1)"
    using floor_log_eq_powr_iff [OF pos, of 2 "\<lfloor>log 2 \<bar>x\<bar>\<rfloor>"] by simp
  then show "2 powi \<lfloor>log 2 \<bar>x\<bar>\<rfloor> \<le> \<bar>x\<bar>" "\<bar>x\<bar> < 2 powi (\<lfloor>log 2 \<bar>x\<bar>\<rfloor> + 1)"
    by (simp_all add: two_powr_int two_powr_int1)
qed

lemma floor_log2_eq:
  assumes "x \<noteq> 0" "2 powi k \<le> \<bar>x\<bar>" "\<bar>x\<bar> < 2 powi (k + 1)"
  shows "\<lfloor>log 2 \<bar>x\<bar>\<rfloor> = k"
proof -
  from assms have pos: "0 < \<bar>x\<bar>" by simp
  have "2 powr real_of_int k \<le> \<bar>x\<bar> \<and> \<bar>x\<bar> < 2 powr real_of_int (k + 1)"
    using assms(2,3) by (simp add: two_powr_int two_powr_int1)
  then show ?thesis
    using floor_log_eq_powr_iff [OF pos, of 2 k] by simp
qed

lemma float_exponent_minus [simp]: "float_exponent (- x) = float_exponent x"
  by (simp add: float_exponent_def)

lemma float_exponent_upper:
  assumes "x \<noteq> 0"
  shows "\<bar>x\<bar> < 2 powi (float_exponent x + 1)"
proof -
  have "\<bar>x\<bar> < 2 powi (\<lfloor>log 2 \<bar>x\<bar>\<rfloor> + 1)" by (rule floor_log2_bounds [OF assms])
  also have "\<dots> \<le> 2 powi (float_exponent x + 1)"
    by (rule two_powi_mono) (simp add: float_exponent_def)
  finally show ?thesis .
qed

lemma float_exponent_lower:
  assumes "x \<noteq> 0" "- 126 < float_exponent x"
  shows "2 powi float_exponent x \<le> \<bar>x\<bar>"
proof -
  from assms(2) have "float_exponent x = \<lfloor>log 2 \<bar>x\<bar>\<rfloor>"
    by (simp add: float_exponent_def max_def split: if_splits)
  with floor_log2_bounds(1) [OF assms(1)] show ?thesis by simp
qed

lemma float_exponent_mono:
  assumes "0 < x" "x \<le> y"
  shows "float_exponent x \<le> float_exponent y"
proof -
  from assms have "log 2 \<bar>x\<bar> \<le> log 2 \<bar>y\<bar>" by simp
  then have "\<lfloor>log 2 \<bar>x\<bar>\<rfloor> \<le> \<lfloor>log 2 \<bar>y\<bar>\<rfloor>" by (rule floor_mono)
  then show ?thesis by (simp add: float_exponent_def)
qed

lemma float_round_minus: "float_round (- x) = - float_round x"
  by (simp add: float_round_def Let_def round_even_minus)

lemma float_round_nonneg:
  assumes "0 \<le> x"
  shows "0 \<le> float_round x"
proof (cases "x = 0")
  case True
  then show ?thesis by (simp add: float_round_def)
next
  case False
  with assms have "0 \<le> x / 2 powi (float_exponent x - 23)" by simp
  then have "0 \<le> round_even (x / 2 powi (float_exponent x - 23))" by (rule round_even_nonneg)
  with False show ?thesis by (simp add: float_round_def Let_def)
qed

lemma float_round_upper:
  assumes "0 < x"
  shows "float_round x \<le> 2 powi (float_exponent x + 1)"
proof -
  let ?e = "float_exponent x" and ?q = "(2 :: real) powi (float_exponent x - 23)"
  have split: "(2 :: real) powi (?e + 1) = real_of_int (2 ^ 24) * ?q"
  proof -
    have "(2 :: real) powi (?e + 1) = 2 powi (24 + (?e - 23))"
      by (rule arg_cong [where f = "power_int 2"]) simp
    also have "\<dots> = 2 powi 24 * ?q" by (rule power_int_add) simp
    finally show ?thesis by simp
  qed
  from assms float_exponent_upper [of x] have "x < 2 powi (?e + 1)" by simp
  then have "x / ?q \<le> real_of_int (2 ^ 24)"
    unfolding split by (simp add: field_simps)
  then have "round_even (x / ?q) \<le> round_even (real_of_int (2 ^ 24))" by (rule round_even_mono)
  then have "round_even (x / ?q) \<le> 2 ^ 24" by (simp only: round_even_of_int)
  then have "real_of_int (round_even (x / ?q)) \<le> real_of_int (2 ^ 24)" by (simp only: of_int_le_iff)
  then have "real_of_int (round_even (x / ?q)) * ?q \<le> real_of_int (2 ^ 24) * ?q"
    by (rule mult_right_mono) simp
  with assms show ?thesis unfolding split by (simp add: float_round_def Let_def)
qed

lemma float_round_lower:
  assumes "0 < x" "2 powi float_exponent x \<le> x"
  shows "2 powi float_exponent x \<le> float_round x"
proof -
  let ?e = "float_exponent x" and ?q = "(2 :: real) powi (float_exponent x - 23)"
  have split: "(2 :: real) powi ?e = real_of_int (2 ^ 23) * ?q"
  proof -
    have "(2 :: real) powi ?e = 2 powi (23 + (?e - 23))"
      by (rule arg_cong [where f = "power_int 2"]) simp
    also have "\<dots> = 2 powi 23 * ?q" by (rule power_int_add) simp
    finally show ?thesis by simp
  qed
  from assms(2) have "real_of_int (2 ^ 23) \<le> x / ?q"
    unfolding split by (simp add: field_simps)
  then have "round_even (real_of_int (2 ^ 23)) \<le> round_even (x / ?q)" by (rule round_even_mono)
  then have "2 ^ 23 \<le> round_even (x / ?q)" by (simp only: round_even_of_int)
  then have "real_of_int (2 ^ 23) \<le> real_of_int (round_even (x / ?q))" by (simp only: of_int_le_iff)
  then have "real_of_int (2 ^ 23) * ?q \<le> real_of_int (round_even (x / ?q)) * ?q"
    by (rule mult_right_mono) simp
  with assms show ?thesis unfolding split by (simp add: float_round_def Let_def)
qed

lemma float_round_mono_pos:
  assumes "0 < x" "x \<le> y"
  shows "float_round x \<le> float_round y"
proof (cases "float_exponent x = float_exponent y")
  case True
  let ?q = "(2 :: real) powi (float_exponent y - 23)"
  from assms have "x / ?q \<le> y / ?q" by (simp add: divide_right_mono)
  then have "round_even (x / ?q) \<le> round_even (y / ?q)" by (rule round_even_mono)
  then have "real_of_int (round_even (x / ?q)) * ?q \<le> real_of_int (round_even (y / ?q)) * ?q"
    by (simp add: mult_right_mono)
  with assms True show ?thesis by (simp add: float_round_def Let_def)
next
  case False
  with float_exponent_mono [OF assms] have lt: "float_exponent x + 1 \<le> float_exponent y"
    by simp
  have "- 126 \<le> float_exponent x" by (simp add: float_exponent_def)
  with lt have n: "- 126 < float_exponent y" by simp
  from assms have y: "0 < y" by simp
  from float_exponent_lower [OF _ n] y have l: "2 powi float_exponent y \<le> y" by simp
  have "float_round x \<le> 2 powi (float_exponent x + 1)" by (rule float_round_upper [OF assms(1)])
  also have "\<dots> \<le> 2 powi float_exponent y" by (rule two_powi_mono [OF lt])
  also have "\<dots> \<le> float_round y" by (rule float_round_lower [OF y l])
  finally show ?thesis .
qed

lemma float_round_0 [simp]: "float_round 0 = 0"
  by (simp add: float_round_def)

lemma float_round_mono:
  assumes "x \<le> y"
  shows "float_round x \<le> float_round y"
proof -
  consider "0 < x" | "x \<le> 0" "0 \<le> y" | "y < 0" by linarith
  then show ?thesis
  proof cases
    case 1
    then show ?thesis using assms by (rule float_round_mono_pos)
  next
    case 2
    from 2(1) have "0 \<le> float_round (- x)" by (intro float_round_nonneg) simp
    then have "float_round x \<le> 0" by (simp add: float_round_minus)
    also have "0 \<le> float_round y" using 2(2) by (rule float_round_nonneg)
    finally show ?thesis .
  next
    case 3
    then have "0 < - y" "- y \<le> - x" using assms by simp_all
    then have "float_round (- y) \<le> float_round (- x)" by (rule float_round_mono_pos)
    then show ?thesis by (simp add: float_round_minus)
  qed
qed

lemma float_round_binade:
  assumes "2 powi k \<le> \<bar>x\<bar>" "\<bar>x\<bar> < 2 powi (k + 1)" "- 126 \<le> k"
  shows "float_round x = real_of_int (round_even (x / 2 powi (k - 23))) * 2 powi (k - 23)"
proof -
  have "0 < (2 :: real) powi k" by simp
  with assms(1) have "0 < \<bar>x\<bar>" by linarith
  then have nz: "x \<noteq> 0" by simp
  from floor_log2_eq [OF nz assms(1,2)] assms(3) have "float_exponent x = k"
    by (simp add: float_exponent_def)
  with nz show ?thesis by (simp add: float_round_def Let_def)
qed

lemma float_round_subnormal:
  assumes "x \<noteq> 0" "\<bar>x\<bar> < 2 powi (- 126)"
  shows "float_round x = real_of_int (round_even (x / 2 powi (- 149))) * 2 powi (- 149)"
proof -
  have "\<lfloor>log 2 \<bar>x\<bar>\<rfloor> < - 126"
  proof (rule ccontr)
    assume "\<not> \<lfloor>log 2 \<bar>x\<bar>\<rfloor> < - 126"
    then have "(2 :: real) powi (- 126) \<le> 2 powi \<lfloor>log 2 \<bar>x\<bar>\<rfloor>"
      by (intro two_powi_mono) simp
    also have "\<dots> \<le> \<bar>x\<bar>" by (rule floor_log2_bounds [OF assms(1)])
    finally show False using assms(2) by simp
  qed
  then have "float_exponent x = - 126" by (simp add: float_exponent_def)
  with assms(1) show ?thesis by (simp add: float_round_def Let_def)
qed

subsection \<open>The phase accumulator, step by step\<close>



subsection \<open>The ring buffer and the callback loop\<close>

lemma ring_write_Some:
  assumes "ring_ok d"
  shows "ring_write s d =
     Some (d\<lparr>waveBuffer := (waveBuffer d)[nat (bufferIndex d) := s],
              bufferIndex := (bufferIndex d + 1) mod 800\<rparr>)"
  using assms by (simp add: ring_ok_def ring_write_def WAVE_SAMPLES_def c_mod_nonneg)

lemma ring_write_ok:
  assumes "ring_ok d" "ring_write s d = Some d'"
  shows "ring_ok d'"
  using assms by (auto simp add: ring_write_Some) (simp add: ring_ok_def WAVE_SAMPLES_def)

lemma ring_write_range:
  assumes "ring_write s d = Some d'"
  shows "0 \<le> bufferIndex d' \<and> bufferIndex d' < WAVE_SAMPLES"
  using assms
  by (auto simp add: ring_write_def WAVE_SAMPLES_def c_mod_nonneg split: if_splits)

lemma ring_write_advance_phase:
  "ring_write s (advance_phase d) = map_option advance_phase (ring_write s d)"
  by (simp add: ring_write_def advance_phase_def)

lemma ring_writes_advance_phase:
  "ring_writes ss (advance_phase d) = map_option advance_phase (ring_writes ss d)"
proof (induction ss arbitrary: d)
  case Nil
  show ?case by simp
next
  case (Cons s ss)
  show ?case
    by (cases "ring_write s d") (simp_all add: ring_write_advance_phase Cons.IH)
qed

lemma ring_ok_advance_phase [simp]: "ring_ok (advance_phase d) = ring_ok d"
  by (simp add: ring_ok_def advance_phase_def)

lemma frame_Some:
  assumes "ring_ok d"
  shows "\<exists>dw. (if i mod 4 = 0 then ring_write (gen_sample d) d else Some d) = Some dw
           \<and> ring_ok dw \<and> frame i d = Some (advance_phase dw, gen_sample d)"
proof (cases "i mod 4 = 0")
  case True
  with assms show ?thesis
    using ring_write_ok [OF assms, of "gen_sample d"]
    by (simp add: frame_def Let_def ring_write_Some)
next
  case False
  with assms show ?thesis by (simp add: frame_def Let_def)
qed

lemma samples_from_Suc:
  "samples_from d (Suc n) = gen_sample d # samples_from (advance_phase d) n"
  by (simp add: samples_from_def map_upt_Suc gen_sample_def advance_phase_def funpow_swap1
      del: upt_Suc)

lemma ring_write_params:
  assumes "ring_write s d = Some d'"
  shows "frequency d' = frequency d \<and> phase d' = phase d \<and> phaseOffset d' = phaseOffset d
     \<and> amplitude d' = amplitude d"
  using assms by (auto simp add: ring_write_def split: if_splits)

lemma samples_from_cong:
  "frequency d' = frequency d \<Longrightarrow> phase d' = phase d \<Longrightarrow> phaseOffset d' = phaseOffset d
     \<Longrightarrow> amplitude d' = amplitude d \<Longrightarrow> samples_from d' n = samples_from d n"
  by (simp add: samples_from_def)


lemma stereo_Cons: "stereo (s # ss) = [s, s] @ stereo ss"
  by (simp add: stereo_def)

lemma callback_loop_char:
  assumes "ring_ok d" "N - i = n"
  shows "\<exists>d' dw. callback_loop i N d out = Some (d', out @ stereo (samples_from d n))
      \<and> ring_ok d'
      \<and> frequency d' = frequency d \<and> phaseOffset d' = phaseOffset d
      \<and> amplitude d' = amplitude d
      \<and> phase d' = (advance (frequency d) ^^ n) (phase d)
      \<and> ring_writes (map (\<lambda>j. samples_from d n ! (j - i))
            (filter (\<lambda>j. j mod 4 = 0) [i..<N])) d = Some dw
      \<and> waveBuffer d' = waveBuffer dw \<and> bufferIndex d' = bufferIndex dw"
  using assms
proof (induction n arbitrary: i d out)
  case 0
  then have "\<not> i < N" by simp
  with 0 show ?case
    by (subst callback_loop.simps) (simp add: samples_from_def stereo_def)
next
  case (Suc n)
  then have lt: "i < N" and n: "N - Suc i = n" by simp_all
  let ?s = "gen_sample d"
  from frame_Some [OF Suc.prems(1), of i] obtain dw0 where
    w: "(if i mod 4 = 0 then ring_write ?s d else Some d) = Some dw0" and
    ok: "ring_ok dw0" and
    fr: "frame i d = Some (advance_phase dw0, ?s)"
    by blast
  let ?d1 = "advance_phase dw0"
  have par: "frequency dw0 = frequency d" "phase dw0 = phase d"
    "phaseOffset dw0 = phaseOffset d" "amplitude dw0 = amplitude d"
    using w by (auto split: if_splits dest: ring_write_params)
  have ok1: "ring_ok ?d1" using ok by simp
  let ?L = "map (\<lambda>j. samples_from ?d1 n ! (j - Suc i)) (filter (\<lambda>j. j mod 4 = 0) [Suc i..<N])"
  from Suc.IH [OF ok1 n, of "out @ [?s, ?s]"] obtain d' dw where
    run: "callback_loop (Suc i) N ?d1 (out @ [?s, ?s])
            = Some (d', (out @ [?s, ?s]) @ stereo (samples_from ?d1 n))" and
    ok': "ring_ok d'" and
    par': "frequency d' = frequency ?d1" "phaseOffset d' = phaseOffset ?d1"
      "amplitude d' = amplitude ?d1" and
    ph': "phase d' = (advance (frequency ?d1) ^^ n) (phase ?d1)" and
    wr: "ring_writes ?L ?d1 = Some dw" and
    eq: "waveBuffer d' = waveBuffer dw" "bufferIndex d' = bufferIndex dw"
    by blast
  have sf: "samples_from d (Suc n) = ?s # samples_from ?d1 n"
    using samples_from_cong [of ?d1 "advance_phase d" n] par
    by (simp add: samples_from_Suc advance_phase_def)
  have unfold: "callback_loop i N d out = callback_loop (Suc i) N ?d1 (out @ [?s, ?s])"
    by (subst callback_loop.simps) (simp add: lt fr)
  have c1: "callback_loop i N d out = Some (d', out @ stereo (samples_from d (Suc n)))"
    by (simp add: unfold run sf stereo_Cons)
  have c2: "frequency d' = frequency d" "phaseOffset d' = phaseOffset d"
    "amplitude d' = amplitude d"
    using par' par by (simp_all add: advance_phase_def)
  have c3: "phase d' = (advance (frequency d) ^^ Suc n) (phase d)"
    using ph' par by (simp add: advance_phase_def funpow_swap1)
  from wr obtain dw' where
    wr': "ring_writes ?L dw0 = Some dw'" and dw: "dw = advance_phase dw'"
    by (auto simp add: ring_writes_advance_phase)
  have shift: "map (\<lambda>j. samples_from d (Suc n) ! (j - i)) (filter (\<lambda>j. j mod 4 = 0) [Suc i..<N]) = ?L"
  proof (rule map_cong [OF refl])
    fix j assume "j \<in> set (filter (\<lambda>j. j mod 4 = 0) [Suc i..<N])"
    then have "j - i = Suc (j - Suc i)" by auto
    then show "samples_from d (Suc n) ! (j - i) = samples_from ?d1 n ! (j - Suc i)"
      by (simp add: sf)
  qed
  have c4: "ring_writes (map (\<lambda>j. samples_from d (Suc n) ! (j - i))
            (filter (\<lambda>j. j mod 4 = 0) [i..<N])) d = Some dw'"
  proof (cases "i mod 4 = 0")
    case True
    with w have "ring_write ?s d = Some dw0" by simp
    with True show ?thesis
      using wr' by (simp add: upt_conv_Cons [OF lt] sf shift [unfolded sf])
  next
    case False
    with w have e: "d = dw0" by simp
    have "ring_writes ?L d = Some dw'"
      using wr' by (subst e) simp
    with False show ?thesis
      by (simp add: upt_conv_Cons [OF lt] shift)
  qed
  have c5: "waveBuffer d' = waveBuffer dw'" "bufferIndex d' = bufferIndex dw'"
    using eq dw by (simp_all add: advance_phase_def)
  from c1 ok' c2 c3 c4 c5 show ?case by blast
qed

subsection \<open>The waveform generator\<close>

lemma float_round_1 [simp]: "float_round 1 = 1"
  using float_round_binade [of 0 1] by (simp add: power_int_minus round_even_def)

lemma float_round_2 [simp]: "float_round 2 = 2"
  using float_round_binade [of 1 2] by (simp add: power_int_minus round_even_def)

lemma float_round_between:
  assumes "float_round lo = lo" "float_round hi = hi" "lo \<le> x" "x \<le> hi"
  shows "lo \<le> float_round x \<and> float_round x \<le> hi"
  using float_round_mono [OF assms(3)] float_round_mono [OF assms(4)] assms(1,2) by simp

lemma fmod_one_nonneg:
  assumes "0 \<le> x"
  shows "fmod x 1 = frac x"
  using assms by (simp add: fmod_one frac_def)

lemma adjustedPhase_nonneg:
  assumes "0 \<le> p + off"
  shows "\<not> fmod (fadd p off) 1 < 0" "adjustedPhase p off = frac (float_round (p + off))"
proof -
  from float_round_mono [OF assms] have "0 \<le> float_round (p + off)" by simp
  then have f: "fmod (fadd p off) 1 = frac (float_round (p + off))"
    by (simp add: fadd_def fmod_one_nonneg)
  show "\<not> fmod (fadd p off) 1 < 0" by (simp add: f not_less)
  then show "adjustedPhase p off = frac (float_round (p + off))"
    by (simp add: adjustedPhase_def Let_def f)
qed

lemma sawtooth_factor_range:
  assumes "0 \<le> r" "r < 1"
  shows "- 1 \<le> fsub (fmul 2 r) 1 \<and> fsub (fmul 2 r) 1 \<le> 1"
proof -
  have "0 \<le> fmul 2 r \<and> fmul 2 r \<le> 2"
    unfolding fmul_def using assms by (intro float_round_between) simp_all
  then have "- 1 \<le> fmul 2 r - 1" "fmul 2 r - 1 \<le> 1" by simp_all
  then show ?thesis
    unfolding fsub_def by (intro float_round_between) (simp_all add: float_round_minus)
qed

lemma fmul_abs_le:
  assumes "float_round a = a" "- 1 \<le> u" "u \<le> 1"
  shows "\<bar>fmul u a\<bar> \<le> \<bar>a\<bar>"
proof -
  have fa: "float_round \<bar>a\<bar> = \<bar>a\<bar>" "float_round (- \<bar>a\<bar>) = - \<bar>a\<bar>"
    using assms(1) by (simp_all add: abs_if float_round_minus)
  have "\<bar>u * a\<bar> \<le> 1 * \<bar>a\<bar>"
    unfolding abs_mult using assms(2,3) by (intro mult_right_mono) (simp_all add: abs_le_iff)
  then have "- \<bar>a\<bar> \<le> u * a" "u * a \<le> \<bar>a\<bar>" by (simp_all add: abs_le_iff)
  with fa have "- \<bar>a\<bar> \<le> float_round (u * a) \<and> float_round (u * a) \<le> \<bar>a\<bar>"
    by (intro float_round_between)
  then show ?thesis by (simp add: fmul_def abs_le_iff)
qed

lemma float_round_03: "float_round (5033165 / 16777216) = 5033165 / 16777216"
  using float_round_binade [of "- 2" "5033165 / 16777216"]
  by (simp add: power_int_minus round_even_def)

text \<open>
  Claim C1, as amended. For a phase \<open>p\<close> and an offset \<open>off\<close> in \<open>[0, 1)\<close> and a binary32
  amplitude \<open>a\<close>: the result of \<^verbatim>\<open>fmod\<close> is not negative, so
  the correction by \<^verbatim>\<open>1.0f\<close> is not applied; the adjusted phase is the fractional part of
  the \<^emph>\<open>rounded\<close> sum, \<open>frac (float_round (p + off))\<close>, and lies in \<open>[0, 1)\<close>; the sample
  is \<open>(2 * adjustedPhase - 1) * a\<close> with every operation rounded to binary32; its
  absolute value is at most \<open>\<bar>a\<bar>\<close>, so for \<open>a \<ge> 0\<close> it lies in \<open>[-a, a]\<close>.
\<close>

theorem sawtooth_sample_in_float_arithmetic:
  assumes "0 \<le> p" "p < 1" "0 \<le> off" "off < 1" "is_float a"
  shows "\<not> fmod (fadd p off) 1 < 0
   \<and> adjustedPhase p off = frac (float_round (p + off))
   \<and> 0 \<le> adjustedPhase p off \<and> adjustedPhase p off < 1
   \<and> sawtooth p off a = fmul (fsub (fmul 2 (frac (float_round (p + off)))) 1) a
   \<and> \<bar>sawtooth p off a\<bar> \<le> \<bar>a\<bar>
   \<and> (0 \<le> a \<longrightarrow> - a \<le> sawtooth p off a \<and> sawtooth p off a \<le> a)"
proof -
  from assms(1,3) have s: "0 \<le> p + off" by simp
  from assms(5) have fa: "float_round a = a" by (simp add: is_float_def)
  note ap = adjustedPhase_nonneg [OF s]
  have r: "0 \<le> adjustedPhase p off" "adjustedPhase p off < 1"
    by (simp_all add: ap(2) frac_lt_1)
  have f: "sawtooth p off a = fmul (fsub (fmul 2 (frac (float_round (p + off)))) 1) a"
    by (simp add: sawtooth_def ap(2))
  from sawtooth_factor_range [OF r]
  have b: "\<bar>sawtooth p off a\<bar> \<le> \<bar>a\<bar>"
    unfolding sawtooth_def by (intro fmul_abs_le [OF fa]) simp_all
  then have i: "0 \<le> a \<longrightarrow> - a \<le> sawtooth p off a \<and> sawtooth p off a \<le> a" by auto
  from ap r f b i show ?thesis by blast
qed

theorem sawtooth_sample_in_float_arithmetic_witness:
  "(0 :: real) \<le> 3 / 4 \<and> (3 / 4 :: real) < 1
   \<and> (0 :: real) \<le> 16777215 / 67108864 \<and> (16777215 / 67108864 :: real) < 1
   \<and> is_float (5033165 / 16777216)
   \<and> (0 :: real) \<le> 5033165 / 16777216
   \<and> - (5033165 / 16777216) \<le> sawtooth (3 / 4) (16777215 / 67108864) (5033165 / 16777216)
   \<and> sawtooth (3 / 4) (16777215 / 67108864) (5033165 / 16777216) \<le> 5033165 / 16777216"
proof -
  have a: "is_float (5033165 / 16777216)"
    by (simp add: is_float_def float_round_03 FLT_MAX_def)
  from sawtooth_sample_in_float_arithmetic
    [of "3 / 4" "16777215 / 67108864" "5033165 / 16777216"] a
  show ?thesis by simp
qed

lemma float_round_below_1: "float_round (67108863 / 67108864) = 1"
  using float_round_binade [of "- 1" "67108863 / 67108864"]
  by (simp add: power_int_minus round_even_def)

lemma float_round_m1: "float_round (- 1) = - 1"
  by (simp add: float_round_minus)

lemma float_round_34: "float_round (3 / 4) = 3 / 4"
  using float_round_binade [of "- 1" "3 / 4"]
  by (simp add: power_int_minus round_even_def)

lemma float_round_quarter_pred: "float_round (16777215 / 67108864) = 16777215 / 67108864"
  using float_round_binade [of "- 3" "16777215 / 67108864"]
  by (simp add: power_int_minus round_even_def)

text \<open>
  Claim C1 as stated fails: the sample is not \<open>(2 * frac (p + off) - 1) * a\<close>. With the
  binary32 values \<open>p = 0.75\<close>, \<open>off = 0.25 - 2 ^ (- 26)\<close> and \<open>a\<close> the binary32 value of
  \<^verbatim>\<open>0.3f\<close>, all in \<open>[0, 1)\<close>, the sum \<open>1 - 2 ^ (- 26)\<close> is rounded to \<open>1\<close>, \<^verbatim>\<open>fmod\<close> gives 0
  and the sample is \<open>- a\<close>, at the bottom of the ramp, where the exact formula gives a
  value just below \<open>+ a\<close>, at its top.
\<close>

theorem sawtooth_rounds_up_to_next_period:
  "(0 :: real) \<le> 3 / 4 \<and> (3 / 4 :: real) < 1
   \<and> (0 :: real) \<le> 16777215 / 67108864 \<and> (16777215 / 67108864 :: real) < 1
   \<and> is_float (3 / 4) \<and> is_float (16777215 / 67108864) \<and> is_float (5033165 / 16777216)
   \<and> adjustedPhase (3 / 4) (16777215 / 67108864) = 0
   \<and> frac (3 / 4 + 16777215 / 67108864 :: real) = 67108863 / 67108864
   \<and> sawtooth (3 / 4) (16777215 / 67108864) (5033165 / 16777216) = - (5033165 / 16777216)
   \<and> (2 * frac (3 / 4 + 16777215 / 67108864) - 1) * (5033165 / 16777216)
       = (168884987704115 / 562949953421312 :: real)
   \<and> sawtooth (3 / 4) (16777215 / 67108864) (5033165 / 16777216)
       \<noteq> (2 * frac (3 / 4 + 16777215 / 67108864) - 1) * (5033165 / 16777216)"
proof -
  have s: "(3 / 4 + 16777215 / 67108864 :: real) = 67108863 / 67108864" by simp
  have a: "adjustedPhase (3 / 4) (16777215 / 67108864) = 0"
    by (simp add: adjustedPhase_def fadd_def float_round_below_1 fmod_def c_trunc_def)
  have fr: "frac (67108863 / 67108864 :: real) = 67108863 / 67108864"
    by (simp add: frac_eq)
  have v: "sawtooth (3 / 4) (16777215 / 67108864) (5033165 / 16777216) = - (5033165 / 16777216)"
    by (simp add: sawtooth_def a fmul_def fsub_def float_round_minus float_round_03)
  show ?thesis
    unfolding v a s fr
    by (simp add: is_float_def FLT_MAX_def float_round_34 float_round_quarter_pred
        float_round_03)
qed

text \<open>
  Outside the range of the claim, where the sum is negative, the correction is applied
  and its result is rounded too; it can be exactly 1.
\<close>

lemma adjustedPhase_can_be_one: "adjustedPhase 0 (- (1 / 1073741824)) = 1"
proof -
  have n: "float_round (1 / 1073741824) = 1 / 1073741824"
    using float_round_binade [of "- 30" "1 / 1073741824"]
    by (simp add: power_int_minus round_even_def)
  have r: "float_round (1073741823 / 1073741824) = 1"
    using float_round_binade [of "- 1" "1073741823 / 1073741824"]
    by (simp add: power_int_minus round_even_def)
  have c: "\<lceil>- (1 / 1073741824 :: real)\<rceil> = 0"
    by (rule ceiling_unique) simp_all
  have m: "fmod (fadd 0 (- (1 / 1073741824))) 1 = - (1 / 1073741824)"
    by (simp add: fadd_def float_round_minus n fmod_def c_trunc_def c)
  have "fadd (- (1 / 1073741824)) 1 = float_round (1073741823 / 1073741824)"
    unfolding fadd_def by (rule arg_cong [where f = float_round]) simp
  then show ?thesis
    unfolding adjustedPhase_def m by (simp add: r)
qed

subsection \<open>The phase accumulator\<close>



subsection \<open>The knob\<close>

lemma sqrt_le_30: "sqrt r \<le> 30 \<longleftrightarrow> r \<le> 900"
proof -
  have "sqrt 900 = 30" by (rule real_sqrt_unique) simp_all
  then show ?thesis using real_sqrt_le_iff [of r 900] by simp
qed

lemma within_radius_iff:
  "distance px py k \<le> real_of_int KNOB_RADIUS \<longleftrightarrow>
     (real_of_int px - knob_x k) * (real_of_int px - knob_x k)
       + (real_of_int py - knob_y k) * (real_of_int py - knob_y k) \<le> 900"
  by (simp add: distance_def KNOB_RADIUS_def Let_def sqrt_le_30)

lemma isDragging_update:
  "isDragging (Knob_update px py engaged k) \<longleftrightarrow>
     engaged \<and> (isDragging k \<or> distance px py k \<le> real_of_int KNOB_RADIUS)"
  by (auto simp add: Knob_update_def drag_def begin_drag_def Let_def)

lemma update_dragging:
  assumes "isDragging k"
  shows "Knob_update px py True k =
     k\<lparr>knob_value := max (minValue k) (min (maxValue k)
          (dragStartValue k + (dragStartY k - real_of_int py) * ((maxValue k - minValue k) / 100)))\<rparr>"
  using assms by (simp add: Knob_update_def drag_def begin_drag_def Let_def)

lemma update_grab:
  assumes "\<not> isDragging k" "distance px py k \<le> real_of_int KNOB_RADIUS"
  shows "Knob_update px py True k =
     k\<lparr>isDragging := True, dragStartY := real_of_int py, dragStartValue := knob_value k,
       knob_value := max (minValue k) (min (maxValue k) (knob_value k))\<rparr>"
  using assms by (simp add: Knob_update_def drag_def begin_drag_def Let_def)



text \<open>
  Claim C8, as amended. A new knob is Idle. An update takes Idle to Dragging exactly when
  the pointer \<^emph>\<open>is\<close> engaged at that update (whether or not it was engaged at the update
  before) and lies within \<^verbatim>\<open>KNOB_RADIUS\<close> of the centre, and takes Dragging to Idle exactly
  when the pointer is not engaged at that update, wherever it is; otherwise the state
  stays as it is.
\<close>

theorem knob_state_machine_level_triggered:
  "state_of (Knob_new cx cy mn mx initial lbl) = Idle
   \<and> state_of (Knob_update px py engaged k) =
       (case state_of k of
          Idle \<Rightarrow>
            if engaged \<and> distance px py k \<le> real_of_int KNOB_RADIUS
            then Dragging else Idle
        | Dragging \<Rightarrow> if engaged then Dragging else Idle)"
  by (simp add: state_of_def isDragging_update) (simp add: Knob_new_def)

text \<open>
  Claim C8 as stated fails: \<^verbatim>\<open>Knob::update\<close> looks at the level of the engagement flag,
  not at its change. The frequency knob is Idle; the pointer is engaged far away from it
  (the knob stays Idle) and then, still engaged, is moved onto the knob: the engagement
  does not become true in that update, so the machine of the specification stays Idle,
  but the knob goes to Dragging.
\<close>

theorem knob_grabbed_while_already_engaged:
  "state_of (Knob_update 1000 1000 True (Knob_new 150 540 50 2000 440 ''Frequency'')) = Idle
   \<and> state_of (Knob_update 150 540 True
        (Knob_update 1000 1000 True (Knob_new 150 540 50 2000 440 ''Frequency''))) = Dragging
   \<and> state_of (Knob_update 150 540 True
        (Knob_update 1000 1000 True (Knob_new 150 540 50 2000 440 ''Frequency'')))
      \<noteq> spec_transition True True
          (distance 150 540 (Knob_update 1000 1000 True (Knob_new 150 540 50 2000 440 ''Frequency''))
             \<le> real_of_int KNOB_RADIUS)
          (state_of (Knob_update 1000 1000 True (Knob_new 150 540 50 2000 440 ''Frequency'')))"
proof -
  let ?k0 = "Knob_new 150 540 50 2000 440 ''Frequency''"
  have far: "\<not> distance 1000 1000 ?k0 \<le> real_of_int KNOB_RADIUS"
    by (simp add: within_radius_iff) (simp add: Knob_new_def)
  have idle0: "\<not> isDragging ?k0" by (simp add: Knob_new_def)
  have k1: "Knob_update 1000 1000 True ?k0 = ?k0"
    using far idle0 by (simp add: Knob_update_def begin_drag_def drag_def)
  have near: "distance 150 540 ?k0 \<le> real_of_int KNOB_RADIUS"
    by (simp add: within_radius_iff) (simp add: Knob_new_def)
  have s1: "state_of ?k0 = Idle" using idle0 by (simp add: state_of_def)
  have s2: "state_of (Knob_update 150 540 True ?k0) = Dragging"
    using near by (simp add: state_of_def isDragging_update)
  show ?thesis
    unfolding k1 using s1 s2 near by (simp add: spec_transition_def)
qed

subsection \<open>The pointer listener\<close>

lemmas scan_simps = receive_def c_string_def FORMAT_def scan_d_def isspace_def isdigit_def
  decimal_def INT_MIN_def INT_MAX_def at_end_def Let_def

lemma sscanf_count:
  assumes "sscanf fmt s vs = Some (n, vs')"
  shows "n = int (length vs') \<or> n = - 1 \<and> vs' = []"
  using assms
proof (induction fmt s vs rule: sscanf.induct)
  case (1 s vs)
  then show ?case by auto
next
  case (2 c fmt s vs)
  then show ?case by (auto simp add: at_end_def split: list.splits if_splits)
next
  case (3 fmt s vs)
  then show ?case by (auto simp add: at_end_def split: conversion.splits if_splits)
qed

lemma receive_unchanged:
  assumes "sscanf FORMAT (c_string payload) [] = Some (n, vs)" "length vs < 2"
  shows "receive payload h = Some h"
proof -
  from sscanf_count [OF assms(1)] assms(2) have "n < 2" by auto
  with assms(1) show ?thesis by (simp add: receive_def)
qed

text \<open>
  Claim C4. Whatever the pointer signal was before: the datagram \<^verbatim>\<open>100,200,1\<close> sets it
  to x = 100, y = 200, engaged; the datagram \<^verbatim>\<open>garbage\<close> leaves it as it was; the
  datagram \<^verbatim>\<open>10,20\<close> sets x = 10, y = 20, not engaged; and every datagram from which
  \<^verbatim>\<open>sscanf\<close> converts fewer than two numbers leaves the signal as it was.
\<close>

theorem pointer_ingestion:
  "receive ''100,200,1'' h = Some \<lparr>handX = 100, handY = 200, handPinch = True\<rparr>
   \<and> receive ''garbage'' h = Some h
   \<and> receive ''10,20'' h = Some \<lparr>handX = 10, handY = 20, handPinch = False\<rparr>
   \<and> (sscanf FORMAT (c_string payload) [] = Some (n, vs) \<and> length vs < 2
        \<longrightarrow> receive payload h = Some h)"
proof -
  have a: "receive ''100,200,1'' h = Some \<lparr>handX = 100, handY = 200, handPinch = True\<rparr>"
    by (simp add: scan_simps)
  have b: "receive ''garbage'' h = Some h"
    by (simp add: scan_simps)
  have c: "receive ''10,20'' h = Some \<lparr>handX = 10, handY = 20, handPinch = False\<rparr>"
    by (simp add: scan_simps)
  from a b c receive_unchanged show ?thesis by blast
qed

theorem pointer_ingestion_witness:
  "sscanf FORMAT (c_string ''garbage'') [] = Some (0, []) \<and> length ([] :: int list) < 2
   \<and> receive ''garbage'' Hand_new = Some Hand_new
   \<and> receive ''100,200,1'' Hand_new = Some \<lparr>handX = 100, handY = 200, handPinch = True\<rparr>"
proof -
  have s: "sscanf FORMAT (c_string ''garbage'') [] = Some (0, [])"
    by (simp add: scan_simps)
  from pointer_ingestion [of Hand_new "''garbage''" 0 "[]"] s show ?thesis by simp
qed

subsection \<open>Writing and reading the ring buffer\<close>

lemma ring_slots_distinct:
  assumes "k < n" "n < 800"
  shows "(c + int k) mod 800 \<noteq> (c + int n) mod (800 :: int)"
proof
  assume "(c + int k) mod 800 = (c + int n) mod 800"
  then have "(c + int n) mod 800 = (c + int k) mod 800" by (rule sym)
  then have "(800 :: int) dvd (c + int n) - (c + int k)"
    by (simp only: mod_eq_dvd_iff)
  then have "(800 :: int) dvd int n - int k" by simp
  moreover have "0 < int n - int k" using assms by simp
  ultimately have "800 \<le> int n - int k" by (rule zdvd_imp_le)
  with assms show False by simp
qed

lemma ring_writes_append:
  "ring_writes (xs @ ys) d =
     (case ring_writes xs d of None \<Rightarrow> None | Some d' \<Rightarrow> ring_writes ys d')"
  by (induction xs arbitrary: d) (auto split: option.splits)

lemma ring_writes_char:
  assumes "ring_ok d" "length xs \<le> 800"
  shows "\<exists>d'. ring_writes xs d = Some d' \<and> ring_ok d'
     \<and> bufferIndex d' = (bufferIndex d + int (length xs)) mod 800
     \<and> (\<forall>k < length xs. waveBuffer d' ! nat ((bufferIndex d + int k) mod 800) = xs ! k)"
  using assms
proof (induction xs rule: rev_induct)
  case Nil
  then show ?case by (simp add: ring_ok_def WAVE_SAMPLES_def)
next
  case (snoc x xs)
  then obtain d1 where
    w: "ring_writes xs d = Some d1" and ok1: "ring_ok d1" and
    idx: "bufferIndex d1 = (bufferIndex d + int (length xs)) mod 800" and
    old: "\<forall>k < length xs. waveBuffer d1 ! nat ((bufferIndex d + int k) mod 800) = xs ! k"
    by auto
  let ?d2 = "d1\<lparr>waveBuffer := (waveBuffer d1)[nat (bufferIndex d1) := x],
              bufferIndex := (bufferIndex d1 + 1) mod 800\<rparr>"
  have w2: "ring_writes (xs @ [x]) d = Some ?d2"
    by (simp add: ring_writes_append w ring_write_Some [OF ok1])
  have ok2: "ring_ok ?d2"
    using ok1 by (simp add: ring_ok_def WAVE_SAMPLES_def)
  have idx2: "bufferIndex ?d2 = (bufferIndex d + int (length (xs @ [x]))) mod 800"
    by (simp add: idx mod_simps ac_simps)
  have len1: "length (waveBuffer d1) = 800"
    using ok1 by (simp add: ring_ok_def WAVE_SAMPLES_def)
  have new: "waveBuffer ?d2 ! nat ((bufferIndex d + int k) mod 800) = (xs @ [x]) ! k"
    if k: "k < length (xs @ [x])" for k
  proof (cases "k = length xs")
    case True
    then show ?thesis using len1 by (simp add: idx)
  next
    case False
    with k have lt: "k < length xs" by simp
    have "length xs < 800" using snoc.prems(2) by simp
    with lt have "(bufferIndex d + int k) mod 800 \<noteq> (bufferIndex d + int (length xs)) mod 800"
      by (rule ring_slots_distinct)
    then have "nat ((bufferIndex d + int k) mod 800) \<noteq> nat (bufferIndex d1)"
      by (simp add: idx nat_eq_iff)
    then show ?thesis using old lt by (simp add: nth_append)
  qed
  from w2 ok2 idx2 new show ?case by blast
qed

lemma read_pair_Some:
  assumes "ring_ok d" "0 \<le> i"
  shows "read_pair i d =
     Some (waveBuffer d ! nat ((bufferIndex d + i) mod 800),
           waveBuffer d ! nat ((bufferIndex d + i + 1) mod 800))"
  using assms
  by (simp add: read_pair_def vec_at_def ring_ok_def WAVE_SAMPLES_def c_mod_nonneg Let_def)

lemma drawWaveform_loop_char:
  assumes "ring_ok d" "799 - k = n" "k \<le> 799"
  shows "drawWaveform_loop (int k) d acc =
     Some (acc @ map (\<lambda>j. ((waveBuffer d ! nat ((bufferIndex d + int j) mod 800),
                              waveBuffer d ! nat ((bufferIndex d + int j + 1) mod 800)),
                            line_of (int j)
                              (waveBuffer d ! nat ((bufferIndex d + int j) mod 800),
                               waveBuffer d ! nat ((bufferIndex d + int j + 1) mod 800))))
                  [k..<799])"
  using assms(2,3)
proof (induction n arbitrary: k acc)
  case 0
  then have "k = 799" by simp
  then show ?case
    by (subst drawWaveform_loop.simps) (simp add: WAVE_SAMPLES_def)
next
  case (Suc n)
  then have lt: "k < 799" and n: "799 - Suc k = n" and le: "Suc k \<le> 799" by simp_all
  have i: "int k + 1 = int (Suc k)" by simp
  show ?case
    apply (subst drawWaveform_loop.simps)
    apply (simp only: i read_pair_Some [OF assms(1), of "int k", simplified])
    apply (simp add: WAVE_SAMPLES_def lt Suc.IH [OF n le] upt_conv_Cons [OF lt] del: upt_Suc of_nat_Suc)
    done
qed

lemma drawWaveform_reads_char:
  assumes "ring_ok d"
  shows "drawWaveform_reads d =
     Some (map (\<lambda>j. (waveBuffer d ! nat ((bufferIndex d + int j) mod 800),
                      waveBuffer d ! nat ((bufferIndex d + int j + 1) mod 800))) [0..<799])"
  using drawWaveform_loop_char [OF assms, of 0 799 "[]"]
  by (simp add: drawWaveform_reads_def comp_def)

lemma drawWaveform_Some:
  assumes "ring_ok d"
  shows "\<exists>ls. drawWaveform d = Some ls \<and> length ls = 799"
  using drawWaveform_loop_char [OF assms, of 0 799 "[]"]
  by (simp add: drawWaveform_def)

lemma polyline_pairs:
  assumes "length xs = 800"
  shows "polyline (map (\<lambda>j. (xs ! j, xs ! Suc j)) [0..<799]) = xs"
proof -
  have ne: "map (\<lambda>j. (xs ! j, xs ! Suc j)) [0..<799] \<noteq> []" by simp
  have l: "last (map (\<lambda>j. (xs ! j, xs ! Suc j)) [0..<799]) = (xs ! 798, xs ! 799)"
    by (simp add: last_map last_upt)
  have "map ((!) xs) [0..<800] = xs"
    using map_nth [of xs] assms by simp
  moreover have "[0..<800] = [0..<799] @ [799]"
    using upt_Suc_append [of 0 799] by simp
  ultimately have "map ((!) xs) [0..<799] @ [xs ! 799] = xs" by simp
  then show ?thesis
    unfolding polyline_def using ne l by (simp add: comp_def)
qed

text \<open>
  Claim C5. From any state whose ring buffer is as the constructor made it (800 entries,
  cursor inside), after exactly 800 samples \<open>xs\<close> have been written the cursor is back
  where it was, and the reader, starting at the cursor and wrapping modulo 800, reads in
  its 799 iterations the pairs \<open>(xs ! j, xs ! (j + 1))\<close>: the polyline runs through the
  800 written samples from the oldest to the newest, each once.
\<close>

theorem ring_buffer_snapshot_chronological:
  assumes "ring_ok d" "length xs = nat WAVE_SAMPLES"
  shows "\<exists>d' ps. ring_writes xs d = Some d' \<and> bufferIndex d' = bufferIndex d
     \<and> drawWaveform_reads d' = Some ps
     \<and> ps = map (\<lambda>j. (xs ! j, xs ! Suc j)) [0..<799]
     \<and> polyline ps = xs"
proof -
  have len: "length xs = 800" using assms(2) by (simp add: WAVE_SAMPLES_def)
  from ring_writes_char [OF assms(1), of xs] len obtain d' where
    w: "ring_writes xs d = Some d'" and ok: "ring_ok d'" and
    idx: "bufferIndex d' = (bufferIndex d + 800) mod 800" and
    cont: "\<forall>k < 800. waveBuffer d' ! nat ((bufferIndex d + int k) mod 800) = xs ! k"
    by auto
  have idx': "bufferIndex d' = bufferIndex d"
    using assms(1) by (simp add: idx ring_ok_def WAVE_SAMPLES_def)
  have "map (\<lambda>j. (waveBuffer d' ! nat ((bufferIndex d' + int j) mod 800),
                      waveBuffer d' ! nat ((bufferIndex d' + int j + 1) mod 800))) [0..<799]
        = map (\<lambda>j. (xs ! j, xs ! Suc j)) [0..<799]"
  proof (rule map_cong [OF refl])
    fix j assume "j \<in> set [0..<799]"
    then have j: "j < 800" "Suc j < 800" by simp_all
    have "bufferIndex d + int j + 1 = bufferIndex d + int (Suc j)" by simp
    with cont j show "(waveBuffer d' ! nat ((bufferIndex d' + int j) mod 800),
                      waveBuffer d' ! nat ((bufferIndex d' + int j + 1) mod 800))
        = (xs ! j, xs ! Suc j)"
      unfolding idx' by (simp only:)
  qed
  with drawWaveform_reads_char [OF ok]
  have r: "drawWaveform_reads d' = Some (map (\<lambda>j. (xs ! j, xs ! Suc j)) [0..<799])"
    by simp
  from w idx' r polyline_pairs [OF len] show ?thesis by blast
qed

theorem ring_buffer_snapshot_chronological_witness:
  "ring_ok SawtoothData_new \<and> length (map real [0..<800]) = nat WAVE_SAMPLES
   \<and> (\<exists>d' ps. ring_writes (map real [0..<800]) SawtoothData_new = Some d'
        \<and> drawWaveform_reads d' = Some ps \<and> polyline ps = map real [0..<800])"
proof -
  have h: "ring_ok SawtoothData_new" "length (map real [0..<800]) = nat WAVE_SAMPLES"
    by (simp_all add: SawtoothData_new_def ring_ok_def WAVE_SAMPLES_def)
  from ring_buffer_snapshot_chronological [OF h] h show ?thesis by blast
qed

subsection \<open>The downsampled feed and the cursor\<close>

lemma cursor_shift:
  "((c + 1) mod 800 + int n) mod 800 = (c + int (Suc n)) mod (800 :: int)"
proof -
  have "((c + 1) mod 800 + int n) mod 800 = ((c + 1) + int n) mod 800"
    by (rule mod_add_left_eq)
  also have "(c + 1) + int n = c + int (Suc n)" by simp
  finally show ?thesis .
qed

lemma ring_writes_index:
  assumes "ring_ok d"
  shows "\<exists>d'. ring_writes xs d = Some d' \<and> ring_ok d'
     \<and> bufferIndex d' = (bufferIndex d + int (length xs)) mod 800"
  using assms
proof (induction xs arbitrary: d)
  case Nil
  then show ?case by (simp add: ring_ok_def WAVE_SAMPLES_def)
next
  case (Cons x xs)
  let ?d1 = "d\<lparr>waveBuffer := (waveBuffer d)[nat (bufferIndex d) := x],
              bufferIndex := (bufferIndex d + 1) mod 800\<rparr>"
  have w: "ring_write x d = Some ?d1" by (rule ring_write_Some [OF Cons.prems])
  have ok1: "ring_ok ?d1" by (rule ring_write_ok [OF Cons.prems w])
  from Cons.IH [OF ok1] obtain d' where
    r: "ring_writes xs ?d1 = Some d'" and ok': "ring_ok d'" and
    i: "bufferIndex d' = (bufferIndex ?d1 + int (length xs)) mod 800"
    by blast
  have "bufferIndex d' = (bufferIndex d + int (length (x # xs))) mod 800"
    using i cursor_shift [of "bufferIndex d" "length xs"] by simp
  moreover have "ring_writes (x # xs) d = Some d'"
    using w r by simp
  ultimately show ?case using ok' by blast
qed

lemma div4_step: "N mod 4 = 0 \<Longrightarrow> (Suc N + 3) div 4 = Suc ((N + 3) div 4)"
  by presburger

lemma div4_stay: "N mod 4 \<noteq> 0 \<Longrightarrow> (Suc N + 3) div 4 = (N + 3) div 4"
  by presburger

lemma count_every_fourth: "length (filter (\<lambda>i. i mod 4 = 0) [0..<N]) = (N + 3) div 4"
proof (induction N)
  case 0
  show ?case by simp
next
  case (Suc N)
  show ?case
  proof (cases "N mod 4 = 0")
    case True
    then show ?thesis using Suc div4_step [OF True] by simp
  next
    case False
    then show ?thesis using Suc div4_stay [OF False] by simp
  qed
qed

text \<open>
  Claim C6. In a state whose ring buffer is as the constructor made it, frame \<open>i\<close> of a
  block stores its sample at the cursor and moves the cursor to \<open>(cursor + 1) mod 800\<close>
  if \<open>i mod 4 = 0\<close>, and leaves buffer and cursor as they are otherwise. A callback of
  \<open>N\<close> frames returns; its output is each sample twice; and its effect on buffer and
  cursor is that of writing, in order, the samples of exactly the frames \<open>i < N\<close> with
  \<open>i mod 4 = 0\<close>, so the cursor has moved by the number of these frames modulo 800.
\<close>

theorem every_fourth_frame_is_written:
  assumes "ring_ok d"
  shows "(\<exists>d1. frame i d = Some (d1, gen_sample d)
           \<and> (if i mod 4 = 0
               then waveBuffer d1 = (waveBuffer d)[nat (bufferIndex d) := gen_sample d]
                    \<and> bufferIndex d1 = (bufferIndex d + 1) mod 800
               else waveBuffer d1 = waveBuffer d \<and> bufferIndex d1 = bufferIndex d))
     \<and> (\<exists>d' dw. sawtoothCallback N d = Some (d', stereo (samples_from d N))
           \<and> ring_writes (map (\<lambda>i. samples_from d N ! i) (filter (\<lambda>i. i mod 4 = 0) [0..<N])) d
               = Some dw
           \<and> waveBuffer d' = waveBuffer dw \<and> bufferIndex d' = bufferIndex dw
           \<and> bufferIndex d' = (bufferIndex d + int ((N + 3) div 4)) mod 800)"
proof -
  have a: "\<exists>d1. frame i d = Some (d1, gen_sample d)
           \<and> (if i mod 4 = 0
               then waveBuffer d1 = (waveBuffer d)[nat (bufferIndex d) := gen_sample d]
                    \<and> bufferIndex d1 = (bufferIndex d + 1) mod 800
               else waveBuffer d1 = waveBuffer d \<and> bufferIndex d1 = bufferIndex d)"
    by (simp add: frame_def Let_def ring_write_Some [OF assms] advance_phase_def)
  let ?ws = "map (\<lambda>i. samples_from d N ! i) (filter (\<lambda>i. i mod 4 = 0) [0..<N])"
  from callback_loop_char [OF assms, of N 0 N "[]"] obtain d' dw where
    c: "sawtoothCallback N d = Some (d', stereo (samples_from d N))" and
    w: "ring_writes ?ws d = Some dw" and
    e: "waveBuffer d' = waveBuffer dw" "bufferIndex d' = bufferIndex dw"
    by (auto simp add: sawtoothCallback_def)
  from ring_writes_index [OF assms, of ?ws] w
  have "bufferIndex dw = (bufferIndex d + int ((N + 3) div 4)) mod 800"
    by (simp add: count_every_fourth)
  with c w e a show ?thesis by auto
qed

theorem every_fourth_frame_is_written_witness:
  "ring_ok SawtoothData_new
   \<and> (\<exists>d'. sawtoothCallback 256 SawtoothData_new = Some (d', stereo (samples_from SawtoothData_new 256))
         \<and> bufferIndex d' = 64)"
proof -
  have h: "ring_ok SawtoothData_new"
    by (simp add: SawtoothData_new_def ring_ok_def WAVE_SAMPLES_def)
  from every_fourth_frame_is_written [OF h, of 0 256] obtain d' where
    c: "sawtoothCallback 256 SawtoothData_new = Some (d', stereo (samples_from SawtoothData_new 256))" and
    i: "bufferIndex d' = (bufferIndex SawtoothData_new + int ((256 + 3) div 4)) mod 800"
    by blast
  from i have "bufferIndex d' = 64" by (simp add: SawtoothData_new_def)
  with c h show ?thesis by blast
qed

lemma step_ok:
  assumes "ring_ok d"
  shows "\<exists>d'. step e d = Some d' \<and> ring_ok d'"
proof (cases e)
  case (Callback n)
  from callback_loop_char [OF assms, of n 0 n "[]"] show ?thesis
    by (auto simp add: Callback sawtoothCallback_def)
next
  case Draw
  from drawWaveform_Some [OF assms] show ?thesis
    using assms by (auto simp add: Draw)
qed (use assms in \<open>simp_all add: ring_ok_def\<close>)

lemma run_ok:
  assumes "ring_ok d"
  shows "\<exists>d'. run es d = Some d' \<and> ring_ok d'"
  using assms
proof (induction es arbitrary: d)
  case Nil
  then show ?case by simp
next
  case (Cons e es)
  from step_ok [OF Cons.prems, of e] obtain d1 where "step e d = Some d1" "ring_ok d1"
    by blast
  with Cons.IH [of d1] show ?case by simp
qed

text \<open>
  Claim C7. The cursor is 0 after construction. After any sequence of callbacks (of any
  block sizes), drawings and parameter stores the program has not left defined
  behaviour, the cursor is in \<open>[0, WAVE_SAMPLES)\<close>, one more write succeeds and leaves
  the cursor in \<open>[0, WAVE_SAMPLES)\<close>, and a drawing succeeds (and changes nothing).
\<close>

theorem cursor_always_in_range:
  "bufferIndex SawtoothData_new = 0
   \<and> (\<exists>d d1 ls. run es SawtoothData_new = Some d
         \<and> 0 \<le> bufferIndex d \<and> bufferIndex d < WAVE_SAMPLES
         \<and> ring_write s d = Some d1
         \<and> 0 \<le> bufferIndex d1 \<and> bufferIndex d1 < WAVE_SAMPLES
         \<and> drawWaveform d = Some ls)"
proof -
  have i: "bufferIndex SawtoothData_new = 0" by (simp add: SawtoothData_new_def)
  have "ring_ok SawtoothData_new"
    by (simp add: SawtoothData_new_def ring_ok_def WAVE_SAMPLES_def)
  from run_ok [OF this, of es] obtain d where r: "run es SawtoothData_new = Some d" and ok: "ring_ok d"
    by blast
  from ok have w: "ring_write s d = Some (d\<lparr>waveBuffer := (waveBuffer d)[nat (bufferIndex d) := s],
              bufferIndex := (bufferIndex d + 1) mod 800\<rparr>)"
    by (rule ring_write_Some)
  from ring_write_ok [OF ok w] have ok1: "ring_ok (d\<lparr>waveBuffer := (waveBuffer d)[nat (bufferIndex d) := s],
              bufferIndex := (bufferIndex d + 1) mod 800\<rparr>)" .
  from drawWaveform_Some [OF ok] obtain ls where l: "drawWaveform d = Some ls" by blast
  from i r ok w ok1 l show ?thesis unfolding ring_ok_def by blast
qed

subsection \<open>The scope of the lock\<close>

lemma outputs_append: "outputs (es @ fs) = outputs es @ outputs fs"
  by (induction es rule: outputs.induct) simp_all

lemma phase_updates_append: "phase_updates (es @ fs) = phase_updates es + phase_updates fs"
  by (induction es rule: phase_updates.induct) simp_all

lemma frame_effects_facts:
  "Acquire \<notin> set (frame_effects i d)" "Release \<notin> set (frame_effects i d)"
  "outputs (frame_effects i d) = [gen_sample d, gen_sample d]"
  "phase_updates (frame_effects i d) = 1"
  by (simp_all add: frame_effects_def Let_def)

lemma frame_replay:
  assumes "frame i d = Some (d1, s)"
  shows "fold replay (frame_effects i d) d = d1"
  using assms
  by (auto simp add: frame_def frame_effects_def ring_write_def advance_phase_def Let_def
      split: if_splits)

lemma loop_effects_char:
  assumes "ring_ok d" "N - i = n"
  shows "\<exists>es d'. loop_effects i N d = Some es
      \<and> callback_loop i N d out = Some (d', out @ outputs es)
      \<and> fold replay es d = d'
      \<and> Acquire \<notin> set es \<and> Release \<notin> set es
      \<and> phase_updates es = n"
  using assms
proof (induction n arbitrary: i d out)
  case 0
  then have "\<not> i < N" by simp
  then show ?case
    by (subst loop_effects.simps, subst callback_loop.simps) simp
next
  case (Suc n)
  then have lt: "i < N" and n: "N - Suc i = n" by simp_all
  from frame_Some [OF Suc.prems(1), of i] obtain dw where
    ok: "ring_ok dw" and fr: "frame i d = Some (advance_phase dw, gen_sample d)"
    by blast
  let ?d1 = "advance_phase dw" and ?s = "gen_sample d"
  have ok1: "ring_ok ?d1" using ok by simp
  from Suc.IH [OF ok1 n, of "out @ [?s, ?s]"] obtain es d' where
    le: "loop_effects (Suc i) N ?d1 = Some es" and
    cl: "callback_loop (Suc i) N ?d1 (out @ [?s, ?s]) = Some (d', (out @ [?s, ?s]) @ outputs es)" and
    rp: "fold replay es ?d1 = d'" and
    na: "Acquire \<notin> set es" "Release \<notin> set es" and
    pu: "phase_updates es = n"
    by blast
  let ?es = "frame_effects i d @ es"
  have 1: "loop_effects i N d = Some ?es"
    by (subst loop_effects.simps) (simp add: lt fr le)
  have 2: "callback_loop i N d out = Some (d', out @ outputs ?es)"
    by (subst callback_loop.simps) (simp add: lt fr cl outputs_append frame_effects_facts)
  have 3: "fold replay ?es d = d'"
    by (simp add: frame_replay [OF fr] rp)
  have 4: "Acquire \<notin> set ?es" "Release \<notin> set ?es"
    using na by (simp_all add: frame_effects_facts)
  have 5: "phase_updates ?es = Suc n"
    by (simp add: phase_updates_append frame_effects_facts pu)
  from 1 2 3 4 5 show ?case by blast
qed

lemma sections_open:
  assumes "Acquire \<notin> set es" "Release \<notin> set es"
  shows "sections (es @ [Release]) (Some c) = [c @ es]"
  using assms
proof (induction es arbitrary: c)
  case Nil
  show ?case by simp
next
  case (Cons e es)
  then show ?case by (cases e) simp_all
qed

text \<open>
  Claim C10, as amended. The callback takes the lock once, before the first frame, and
  releases it once, when it returns: its trace is \<open>Acquire\<close>, then the effects of all
  \<open>N\<close> frames, then \<open>Release\<close>. So there is one critical section, and it holds every
  store of the block: all \<open>2 * N\<close> stores into the audio buffer and all \<open>N\<close> phase
  updates as well as the writes into the ring buffer. (Replaying the trace gives the
  state the callback returns, and its output stores are the callback's output.)
\<close>

theorem lock_held_for_whole_callback:
  assumes "ring_ok d"
  shows "\<exists>body d'. sawtoothCallback_effects N d = Some (Acquire # body @ [Release])
      \<and> Acquire \<notin> set body \<and> Release \<notin> set body
      \<and> sections (Acquire # body @ [Release]) None = [body]
      \<and> sawtoothCallback N d = Some (d', outputs body)
      \<and> length (outputs body) = 2 * N
      \<and> phase_updates body = N
      \<and> fold replay body d = d'"
proof -
  from loop_effects_char [OF assms, of N 0 N "[]"] obtain body d' where
    1: "loop_effects 0 N d = Some body" and
    2: "callback_loop 0 N d [] = Some (d', outputs body)" and
    3: "fold replay body d = d'" and
    4: "Acquire \<notin> set body" "Release \<notin> set body" and
    5: "phase_updates body = N"
    by auto
  from callback_loop_char [OF assms, of N 0 N "[]"] 2
  have 6: "length (outputs body) = 2 * N"
    by (auto simp add: stereo_def samples_from_def length_concat comp_def sum_list_triv)
  have 7: "sections (Acquire # body @ [Release]) None = [body]"
    using sections_open [OF 4, of "[]"] by simp
  from 1 2 3 4 5 6 7 show ?thesis
    unfolding sawtoothCallback_effects_def sawtoothCallback_def by auto
qed

theorem lock_held_for_whole_callback_witness:
  "ring_ok SawtoothData_new
   \<and> (\<exists>body. sawtoothCallback_effects 256 SawtoothData_new = Some (Acquire # body @ [Release])
        \<and> sections (Acquire # body @ [Release]) None = [body]
        \<and> length (outputs body) = 512 \<and> phase_updates body = 256)"
proof -
  have h: "ring_ok SawtoothData_new"
    by (simp add: SawtoothData_new_def ring_ok_def WAVE_SAMPLES_def)
  from lock_held_for_whole_callback [OF h, of 256] obtain body where
    "sawtoothCallback_effects 256 SawtoothData_new = Some (Acquire # body @ [Release])"
    "sections (Acquire # body @ [Release]) None = [body]"
    "length (outputs body) = 2 * 256" "phase_updates body = 256"
    by blast
  with h show ?thesis by auto
qed

lemma amplitude_new: "amplitude SawtoothData_new = 5033165 / 16777216"
  using float_round_binade [of "- 2" "3 / 10"]
  by (simp add: SawtoothData_new_def power_int_minus round_even_def)

lemma sample_frame0: "sawtooth 0 0 (5033165 / 16777216) = - (5033165 / 16777216)"
  by (simp add: sawtooth_def adjustedPhase_def fadd_def fmod_def c_trunc_def fmul_def fsub_def
      float_round_minus float_round_03)

lemma sample_frame1: "sawtooth (22 / 2205) 0 (5033165 / 16777216) = - (2466365 / 8388608)"
proof -
  have 1: "float_round (22 / 2205) = 5356535 / 536870912"
    using float_round_binade [of "- 7" "22 / 2205"]
    by (simp add: power_int_minus round_even_def)
  have a: "adjustedPhase (22 / 2205) 0 = 5356535 / 536870912"
    by (simp add: adjustedPhase_def fadd_def 1 fmod_def c_trunc_def)
  have 2: "fmul 2 (5356535 / 536870912) = 5356535 / 268435456"
    using float_round_binade [of "- 6" "5356535 / 268435456"]
    by (simp add: fmul_def power_int_minus round_even_def)
  have "float_round (263078921 / 268435456) = 16442433 / 16777216"
    using float_round_binade [of "- 1" "263078921 / 268435456"]
    by (simp add: power_int_minus round_even_def)
  then have 3: "fsub (5356535 / 268435456) 1 = - (16442433 / 16777216)"
    by (simp add: fsub_def float_round_minus)
  have "float_round (16442433 / 16777216 * (5033165 / 16777216)) = 2466365 / 8388608"
    using float_round_binade [of "- 2" "16442433 / 16777216 * (5033165 / 16777216)"]
    by (simp add: power_int_minus round_even_def)
  then have 4: "fmul (- (16442433 / 16777216)) (5033165 / 16777216) = - (2466365 / 8388608)"
    by (simp add: fmul_def float_round_minus)
  show ?thesis by (simp only: sawtooth_def a 2 3 4)
qed

text \<open>
  Claim C10 as stated fails: the lock is not confined to a buffer write and a cursor
  increment. In a block of two frames from the initial state the one critical section
  holds, besides the write of frame 0, the four output stores and the two phase updates,
  among them those of frame 1, which writes nothing into the ring buffer.
\<close>

theorem lock_spans_two_whole_frames:
  "sawtoothCallback_effects 2 SawtoothData_new =
     Some [Acquire, Store 0 (- (5033165 / 16777216)), SetCursor 1,
           Output (- (5033165 / 16777216)), Output (- (5033165 / 16777216)),
           SetPhase (22 / 2205),
           Output (- (2466365 / 8388608)), Output (- (2466365 / 8388608)),
           SetPhase (44 / 2205), Release]
   \<and> sections
        [Acquire, Store 0 (- (5033165 / 16777216)), SetCursor 1,
         Output (- (5033165 / 16777216)), Output (- (5033165 / 16777216)),
         SetPhase (22 / 2205),
         Output (- (2466365 / 8388608)), Output (- (2466365 / 8388608)),
         SetPhase (44 / 2205), Release] None =
       [[Store 0 (- (5033165 / 16777216)), SetCursor 1,
         Output (- (5033165 / 16777216)), Output (- (5033165 / 16777216)),
         SetPhase (22 / 2205),
         Output (- (2466365 / 8388608)), Output (- (2466365 / 8388608)),
         SetPhase (44 / 2205)]]
   \<and> \<not> minimal_locking
        [Acquire, Store 0 (- (5033165 / 16777216)), SetCursor 1,
         Output (- (5033165 / 16777216)), Output (- (5033165 / 16777216)),
         SetPhase (22 / 2205),
         Output (- (2466365 / 8388608)), Output (- (2466365 / 8388608)),
         SetPhase (44 / 2205), Release]"
proof -
  let ?d = "SawtoothData_new"
  have g0: "gen_sample ?d = - (5033165 / 16777216)"
    using sample_frame0 by (simp add: gen_sample_def amplitude_new) (simp add: SawtoothData_new_def)
  let ?d1 = "?d\<lparr>waveBuffer := (waveBuffer ?d)[0 := - (5033165 / 16777216)], bufferIndex := 1,
      phase := 22 / 2205\<rparr>"
  have f0: "frame 0 ?d = Some (?d1, - (5033165 / 16777216))"
    by (simp add: frame_def g0 ring_write_def advance_phase_def advance_def Let_def
        WAVE_SAMPLES_def SAMPLE_RATE_def c_mod_def c_div_def)
      (simp add: SawtoothData_new_def WAVE_SAMPLES_def)
  have e0: "frame_effects 0 ?d =
      [Store 0 (- (5033165 / 16777216)), SetCursor 1,
       Output (- (5033165 / 16777216)), Output (- (5033165 / 16777216)), SetPhase (22 / 2205)]"
    by (simp add: frame_effects_def g0 advance_def Let_def WAVE_SAMPLES_def SAMPLE_RATE_def
        c_mod_def c_div_def)
      (simp add: SawtoothData_new_def)
  have g1: "gen_sample ?d1 = - (2466365 / 8388608)"
    using sample_frame1 by (simp add: gen_sample_def amplitude_new) (simp add: SawtoothData_new_def)
  have f1: "frame (Suc 0) ?d1 = Some (advance_phase ?d1, - (2466365 / 8388608))"
    by (simp add: frame_def g1)
  have e1: "frame_effects (Suc 0) ?d1 =
      [Output (- (2466365 / 8388608)), Output (- (2466365 / 8388608)), SetPhase (44 / 2205)]"
    by (simp add: frame_effects_def g1 advance_def Let_def SAMPLE_RATE_def)
      (simp add: SawtoothData_new_def)
  have l2: "loop_effects (Suc (Suc 0)) 2 (advance_phase ?d1) = Some []"
    by (subst loop_effects.simps) simp
  have l1: "loop_effects (Suc 0) 2 ?d1 = Some (frame_effects (Suc 0) ?d1)"
    by (subst loop_effects.simps) (simp add: f1 l2)
  have l0: "loop_effects 0 2 ?d = Some (frame_effects 0 ?d @ frame_effects (Suc 0) ?d1)"
    by (subst loop_effects.simps) (simp add: f0 l1)
  have "sawtoothCallback_effects 2 ?d =
     Some [Acquire, Store 0 (- (5033165 / 16777216)), SetCursor 1,
           Output (- (5033165 / 16777216)), Output (- (5033165 / 16777216)),
           SetPhase (22 / 2205),
           Output (- (2466365 / 8388608)), Output (- (2466365 / 8388608)),
           SetPhase (44 / 2205), Release]"
    by (simp add: sawtoothCallback_effects_def l0 e0 e1)
  then show ?thesis by (simp add: minimal_locking_def)
qed

subsection \<open>One pass of the main loop\<close>

text \<open>
  With the three knobs of \<^verbatim>\<open>main\<close>, one pass updates each knob with the pointer values
  read for it and copies the three values into the frequency, the phase offset and the
  amplitude.
\<close>

lemma knobs_loop_step:
  "i < length (knobs s) \<Longrightarrow>
   knobs_loop i hand s =
     knobs_loop (Suc i) hand
       (s\<lparr>knobs := (knobs s)[i := Knob_update (handX (hand i)) (handY (hand i)) (handPinch (hand i)) (knobs s ! i)],
          data := (if i = 0 then (data s)\<lparr>frequency := knob_value (Knob_update (handX (hand i)) (handY (hand i)) (handPinch (hand i)) (knobs s ! i))\<rparr>
                   else if i = 1 then (data s)\<lparr>phaseOffset := knob_value (Knob_update (handX (hand i)) (handY (hand i)) (handPinch (hand i)) (knobs s ! i))\<rparr>
                   else if i = 2 then (data s)\<lparr>amplitude := knob_value (Knob_update (handX (hand i)) (handY (hand i)) (handPinch (hand i)) (knobs s ! i))\<rparr>
                   else data s)\<rparr>)"
  by (subst knobs_loop.simps) (simp add: Let_def)

lemma knobs_loop_done: "\<not> i < length (knobs s) \<Longrightarrow> knobs_loop i hand s = s"
  by (subst knobs_loop.simps) simp

lemma knobs_three:
  assumes "knobs s = [k0, k1, k2]"
  shows "knobs_loop 0 hand s =
     s\<lparr>knobs := [Knob_update (handX (hand 0)) (handY (hand 0)) (handPinch (hand 0)) k0,
                 Knob_update (handX (hand 1)) (handY (hand 1)) (handPinch (hand 1)) k1,
                 Knob_update (handX (hand 2)) (handY (hand 2)) (handPinch (hand 2)) k2],
        data := (data s)\<lparr>
          frequency := knob_value (Knob_update (handX (hand 0)) (handY (hand 0)) (handPinch (hand 0)) k0),
          phaseOffset := knob_value (Knob_update (handX (hand 1)) (handY (hand 1)) (handPinch (hand 1)) k1),
          amplitude := knob_value (Knob_update (handX (hand 2)) (handY (hand 2)) (handPinch (hand 2)) k2)\<rparr>\<rparr>"
proof -
  have "knobs_loop 0 hand s = knobs_loop 1 hand
      (s\<lparr>knobs := [Knob_update (handX (hand 0)) (handY (hand 0)) (handPinch (hand 0)) k0, k1, k2],
         data := (data s)\<lparr>frequency := knob_value (Knob_update (handX (hand 0)) (handY (hand 0)) (handPinch (hand 0)) k0)\<rparr>\<rparr>)"
    using assms by (simp add: knobs_loop_step)
  also have "\<dots> = knobs_loop 2 hand
      (s\<lparr>knobs := [Knob_update (handX (hand 0)) (handY (hand 0)) (handPinch (hand 0)) k0,
                   Knob_update (handX (hand 1)) (handY (hand 1)) (handPinch (hand 1)) k1, k2],
         data := (data s)\<lparr>frequency := knob_value (Knob_update (handX (hand 0)) (handY (hand 0)) (handPinch (hand 0)) k0),
           phaseOffset := knob_value (Knob_update (handX (hand 1)) (handY (hand 1)) (handPinch (hand 1)) k1)\<rparr>\<rparr>)"
    by (subst knobs_loop_step) (simp_all add: numeral_2_eq_2)
  also have "\<dots> = knobs_loop 3 hand
      (s\<lparr>knobs := [Knob_update (handX (hand 0)) (handY (hand 0)) (handPinch (hand 0)) k0,
                   Knob_update (handX (hand 1)) (handY (hand 1)) (handPinch (hand 1)) k1,
                   Knob_update (handX (hand 2)) (handY (hand 2)) (handPinch (hand 2)) k2],
         data := (data s)\<lparr>frequency := knob_value (Knob_update (handX (hand 0)) (handY (hand 0)) (handPinch (hand 0)) k0),
           phaseOffset := knob_value (Knob_update (handX (hand 1)) (handY (hand 1)) (handPinch (hand 1)) k1),
           amplitude := knob_value (Knob_update (handX (hand 2)) (handY (hand 2)) (handPinch (hand 2)) k2)\<rparr>\<rparr>)"
    by (subst knobs_loop_step) (simp_all add: numeral_3_eq_3 numeral_2_eq_2)
  also have "\<dots> = s\<lparr>knobs := [Knob_update (handX (hand 0)) (handY (hand 0)) (handPinch (hand 0)) k0,
                 Knob_update (handX (hand 1)) (handY (hand 1)) (handPinch (hand 1)) k1,
                 Knob_update (handX (hand 2)) (handY (hand 2)) (handPinch (hand 2)) k2],
        data := (data s)\<lparr>
          frequency := knob_value (Knob_update (handX (hand 0)) (handY (hand 0)) (handPinch (hand 0)) k0),
          phaseOffset := knob_value (Knob_update (handX (hand 1)) (handY (hand 1)) (handPinch (hand 1)) k1),
          amplitude := knob_value (Knob_update (handX (hand 2)) (handY (hand 2)) (handPinch (hand 2)) k2)\<rparr>\<rparr>"
    by (subst knobs_loop_done) simp_all
  finally show ?thesis .
qed

lemma poll_events_knobs [simp]:
  "knobs (poll_events es s) = knobs s" "data (poll_events es s) = data s"
  by (induction es arbitrary: s) (simp_all add: handle_event_def split: sdl_event.splits)

lemma main_iteration_three:
  assumes "knobs s = [k0, k1, k2]"
  shows "knobs (main_iteration es hand s) =
       [Knob_update (handX (hand 0)) (handY (hand 0)) (handPinch (hand 0)) k0,
        Knob_update (handX (hand 1)) (handY (hand 1)) (handPinch (hand 1)) k1,
        Knob_update (handX (hand 2)) (handY (hand 2)) (handPinch (hand 2)) k2]"
    and "frequency (data (main_iteration es hand s)) =
       knob_value (Knob_update (handX (hand 0)) (handY (hand 0)) (handPinch (hand 0)) k0)"
    and "phaseOffset (data (main_iteration es hand s)) =
       knob_value (Knob_update (handX (hand 1)) (handY (hand 1)) (handPinch (hand 1)) k1)"
    and "amplitude (data (main_iteration es hand s)) =
       knob_value (Knob_update (handX (hand 2)) (handY (hand 2)) (handPinch (hand 2)) k2)"
    and "running (main_iteration es hand s) = running (poll_events es s)"
proof -
  have "knobs (poll_events es s) = [k0, k1, k2]" using assms by simp
  from knobs_three [OF this, of hand] show
    "knobs (main_iteration es hand s) =
       [Knob_update (handX (hand 0)) (handY (hand 0)) (handPinch (hand 0)) k0,
        Knob_update (handX (hand 1)) (handY (hand 1)) (handPinch (hand 1)) k1,
        Knob_update (handX (hand 2)) (handY (hand 2)) (handPinch (hand 2)) k2]"
    "frequency (data (main_iteration es hand s)) =
       knob_value (Knob_update (handX (hand 0)) (handY (hand 0)) (handPinch (hand 0)) k0)"
    "phaseOffset (data (main_iteration es hand s)) =
       knob_value (Knob_update (handX (hand 1)) (handY (hand 1)) (handPinch (hand 1)) k1)"
    "amplitude (data (main_iteration es hand s)) =
       knob_value (Knob_update (handX (hand 2)) (handY (hand 2)) (handPinch (hand 2)) k2)"
    "running (main_iteration es hand s) = running (poll_events es s)"
    by (simp_all add: main_iteration_def)
qed

text \<open>
  An example run: the pointer grabs the frequency knob at its centre and moves up by 50
  pixels; the frequency becomes 1415. The mouse is moved and clicked meanwhile.
\<close>

lemma main_loop_example:
  "frequency (data (main_loop
        [([SDL_MOUSEMOTION 150 540, SDL_MOUSEBUTTONDOWN 1],
          \<lambda>i. \<lparr>handX = 150, handY = 540, handPinch = True\<rparr>),
         ([SDL_OTHER], \<lambda>i. \<lparr>handX = 150, handY = 490, handPinch = True\<rparr>)] main_new)) = 1415"
proof -
  let ?k0 = "Knob_new 150 540 50 2000 440 ''Frequency''"
  let ?k1 = "Knob_new 350 540 0 1 0 ''Phase''"
  let ?k2 = "Knob_new 550 540 0 1 (float_round (3 / 10)) ''Amplitude''"
  let ?h1 = "\<lambda>i::nat. \<lparr>handX = 150, handY = 540, handPinch = True\<rparr>"
  let ?h2 = "\<lambda>i::nat. \<lparr>handX = 150, handY = 490, handPinch = True\<rparr>"
  let ?s1 = "main_iteration [SDL_MOUSEMOTION 150 540, SDL_MOUSEBUTTONDOWN 1] ?h1 main_new"
  have k: "knobs main_new = [?k0, ?k1, ?k2]" and r: "running main_new"
    by (simp_all add: main_new_def WINDOW_HEIGHT_def KNOB_PANEL_HEIGHT_def c_div_def)
  note s1 = main_iteration_three [OF k, of "[SDL_MOUSEMOTION 150 540, SDL_MOUSEBUTTONDOWN 1]" ?h1]
  have r1: "running ?s1" using r by (simp add: s1(5) handle_event_def)
  have k1: "knobs ?s1 = [Knob_update 150 540 True ?k0, Knob_update 150 540 True ?k1,
      Knob_update 150 540 True ?k2]"
    by (simp add: s1(1))
  note s2 = main_iteration_three [OF k1, of "[SDL_OTHER]" ?h2]
  have "frequency (data (main_iteration [SDL_OTHER] ?h2 ?s1))
      = knob_value (Knob_update 150 490 True (Knob_update 150 540 True ?k0))"
    by (simp add: s2(2))
  also have "\<dots> = 1415"
  proof -
    have idle: "\<not> isDragging ?k0" by (simp add: Knob_new_def)
    have near: "distance 150 540 ?k0 \<le> real_of_int KNOB_RADIUS"
      by (simp add: within_radius_iff) (simp add: Knob_new_def)
    note g = update_grab [OF idle near]
    have dr: "isDragging (Knob_update 150 540 True ?k0)" by (simp add: g)
    show ?thesis
      by (simp only: update_dragging [OF dr]) (simp add: g, simp add: Knob_new_def)
  qed
  finally have v: "frequency (data (main_iteration [SDL_OTHER] ?h2 ?s1)) = 1415" .
  have "main_loop
        [([SDL_MOUSEMOTION 150 540, SDL_MOUSEBUTTONDOWN 1], ?h1), ([SDL_OTHER], ?h2)] main_new
      = main_iteration [SDL_OTHER] ?h2 ?s1"
    using r r1 by (simp only: main_loop.simps fst_conv snd_conv if_True)
  with v show ?thesis by (simp only:)
qed

subsection \<open>The main loop ignores the mouse\<close>

lemma handle_event_mouse:
  assumes "is_mouse e"
  shows "knobs (handle_event e s) = knobs s \<and> data (handle_event e s) = data s
     \<and> running (handle_event e s) = running s"
  using assms by (cases e) (simp_all add: handle_event_def)

lemma handle_event_other:
  assumes "knobs s = knobs t" "data s = data t" "running s = running t"
  shows "knobs (handle_event e s) = knobs (handle_event e t)
     \<and> data (handle_event e s) = data (handle_event e t)
     \<and> running (handle_event e s) = running (handle_event e t)"
  using assms by (cases e) (simp_all add: handle_event_def)

lemma poll_events_filter:
  assumes "knobs s = knobs t" "data s = data t" "running s = running t"
  shows "knobs (poll_events es s) = knobs (poll_events (filter (\<lambda>e. \<not> is_mouse e) es) t)
     \<and> data (poll_events es s) = data (poll_events (filter (\<lambda>e. \<not> is_mouse e) es) t)
     \<and> running (poll_events es s) = running (poll_events (filter (\<lambda>e. \<not> is_mouse e) es) t)"
  using assms
proof (induction es arbitrary: s t)
  case Nil
  then show ?case by simp
next
  case (Cons e es)
  show ?case
  proof (cases "is_mouse e")
    case True
    from handle_event_mouse [OF True, of s] Cons.prems
    have "knobs (handle_event e s) = knobs t" "data (handle_event e s) = data t"
      "running (handle_event e s) = running t"
      by simp_all
    from Cons.IH [OF this] True show ?thesis by simp
  next
    case False
    from handle_event_other [OF Cons.prems, of e]
    have "knobs (handle_event e s) = knobs (handle_event e t)"
      "data (handle_event e s) = data (handle_event e t)"
      "running (handle_event e s) = running (handle_event e t)"
      by simp_all
    from Cons.IH [OF this] False show ?thesis by simp
  qed
qed

lemma poll_events_low:
  assumes "filter (\<lambda>e. \<not> is_mouse e) es = filter (\<lambda>e. \<not> is_mouse e) fs"
    and "knobs s = knobs t" "data s = data t" "running s = running t"
  shows "knobs (poll_events es s) = knobs (poll_events fs t)
     \<and> data (poll_events es s) = data (poll_events fs t)
     \<and> running (poll_events es s) = running (poll_events fs t)"
  using poll_events_filter [OF assms(2-4), of es]
    poll_events_filter [OF refl refl refl, of fs t] assms(1)
  by simp

lemma knobs_loop_low:
  assumes "length (knobs s) - i = n"
    and "knobs s = knobs t" "data s = data t" "running s = running t"
  shows "knobs (knobs_loop i hand s) = knobs (knobs_loop i hand t)
     \<and> data (knobs_loop i hand s) = data (knobs_loop i hand t)
     \<and> running (knobs_loop i hand s) = running (knobs_loop i hand t)"
  using assms
proof (induction n arbitrary: i s t)
  case 0
  then have "\<not> i < length (knobs s)" "\<not> i < length (knobs t)" by simp_all
  with 0 show ?case
    by (subst knobs_loop.simps, subst (2) knobs_loop.simps, subst (3) knobs_loop.simps,
        subst (4) knobs_loop.simps, subst (5) knobs_loop.simps, subst (6) knobs_loop.simps)
      simp
next
  case (Suc n)
  then have lt: "i < length (knobs s)" "i < length (knobs t)" by simp_all
  let ?k = "Knob_update (handX (hand i)) (handY (hand i)) (handPinch (hand i)) (knobs s ! i)"
  let ?d = "\<lambda>d. if i = 0 then d\<lparr>frequency := knob_value ?k\<rparr>
                         else if i = 1 then d\<lparr>phaseOffset := knob_value ?k\<rparr>
                         else if i = 2 then d\<lparr>amplitude := knob_value ?k\<rparr>
                         else d"
  let ?s = "s\<lparr>knobs := (knobs s)[i := ?k], data := ?d (data s)\<rparr>"
  let ?t = "t\<lparr>knobs := (knobs t)[i := ?k], data := ?d (data t)\<rparr>"
  have us: "knobs_loop i hand s = knobs_loop (Suc i) hand ?s"
    by (subst knobs_loop.simps) (simp add: lt Let_def)
  have ut: "knobs_loop i hand t = knobs_loop (Suc i) hand ?t"
    by (subst knobs_loop.simps) (simp add: lt Let_def Suc.prems(2) [symmetric])
  have "length (knobs ?s) - Suc i = n" using Suc.prems(1) by simp
  moreover have "knobs ?s = knobs ?t" "data ?s = data ?t" "running ?s = running ?t"
    using Suc.prems by simp_all
  ultimately show ?case unfolding us ut by (rule Suc.IH)
qed

lemma main_iteration_low:
  assumes "filter (\<lambda>e. \<not> is_mouse e) es = filter (\<lambda>e. \<not> is_mouse e) fs"
    and "knobs s = knobs t" "data s = data t" "running s = running t"
  shows "knobs (main_iteration es hand s) = knobs (main_iteration fs hand t)
     \<and> data (main_iteration es hand s) = data (main_iteration fs hand t)
     \<and> running (main_iteration es hand s) = running (main_iteration fs hand t)"
proof -
  from poll_events_low [OF assms]
  have "knobs (poll_events es s) = knobs (poll_events fs t)"
    "data (poll_events es s) = data (poll_events fs t)"
    "running (poll_events es s) = running (poll_events fs t)"
    by simp_all
  from knobs_loop_low [OF refl this] show ?thesis by (simp add: main_iteration_def)
qed

text \<open>
  Claim C9. Take two runs of the main loop that start with the same knobs, parameters
  and \<^verbatim>\<open>running\<close> flag, and whose inputs agree once the mouse events (button down, button
  up, motion) are removed: the same pointer values are read at every knob update, and
  the events of every iteration agree apart from mouse events. Whatever the mouse
  events are, and whatever \<^verbatim>\<open>mouseX\<close>, \<^verbatim>\<open>mouseY\<close> and \<^verbatim>\<open>mouseDown\<close> were at the start, the
  two runs end with the same knobs, in particular the same knob values, and the same
  audio parameters.
\<close>

theorem knobs_depend_on_hand_pointer_only:
  assumes "without_mouse inputs1 = without_mouse inputs2"
    and "knobs s = knobs t" "data s = data t" "running s = running t"
  shows "knobs (main_loop inputs1 s) = knobs (main_loop inputs2 t)
     \<and> map knob_value (knobs (main_loop inputs1 s)) = map knob_value (knobs (main_loop inputs2 t))
     \<and> data (main_loop inputs1 s) = data (main_loop inputs2 t)
     \<and> running (main_loop inputs1 s) = running (main_loop inputs2 t)"
proof -
  have "knobs (main_loop inputs1 s) = knobs (main_loop inputs2 t)
     \<and> data (main_loop inputs1 s) = data (main_loop inputs2 t)
     \<and> running (main_loop inputs1 s) = running (main_loop inputs2 t)"
    using assms
  proof (induction inputs1 arbitrary: inputs2 s t)
    case Nil
    then have "inputs2 = []" by (simp add: without_mouse_def)
    with Nil show ?case by simp
  next
    case (Cons a as)
    from Cons.prems(1) obtain b bs where
      i2: "inputs2 = b # bs" and
      f: "filter (\<lambda>e. \<not> is_mouse e) (fst a) = filter (\<lambda>e. \<not> is_mouse e) (fst b)" and
      h: "snd a = snd b" and
      r: "without_mouse as = without_mouse bs"
      by (cases inputs2) (auto simp add: without_mouse_def)
    show ?case
    proof (cases "running s")
      case False
      with Cons.prems show ?thesis by (simp add: i2)
    next
      case True
      from main_iteration_low [OF f Cons.prems(2-4), of "snd a"]
      have "knobs (main_iteration (fst a) (snd a) s) = knobs (main_iteration (fst b) (snd b) t)"
        "data (main_iteration (fst a) (snd a) s) = data (main_iteration (fst b) (snd b) t)"
        "running (main_iteration (fst a) (snd a) s) = running (main_iteration (fst b) (snd b) t)"
        by (simp_all add: h)
      from Cons.IH [OF r this] True Cons.prems(4) show ?thesis by (simp add: i2)
    qed
  qed
  then show ?thesis by simp
qed

theorem knobs_depend_on_hand_pointer_only_witness:
  "without_mouse
     [([SDL_MOUSEMOTION 150 540, SDL_MOUSEBUTTONDOWN 1],
       \<lambda>i. \<lparr>handX = 150, handY = 540, handPinch = True\<rparr>),
      ([SDL_OTHER], \<lambda>i. \<lparr>handX = 150, handY = 490, handPinch = True\<rparr>)]
   = without_mouse
     [([], \<lambda>i. \<lparr>handX = 150, handY = 540, handPinch = True\<rparr>),
      ([SDL_MOUSEBUTTONUP 3, SDL_OTHER, SDL_MOUSEMOTION 7 7],
       \<lambda>i. \<lparr>handX = 150, handY = 490, handPinch = True\<rparr>)]
   \<and> knobs (main_loop
        [([SDL_MOUSEMOTION 150 540, SDL_MOUSEBUTTONDOWN 1],
          \<lambda>i. \<lparr>handX = 150, handY = 540, handPinch = True\<rparr>),
         ([SDL_OTHER], \<lambda>i. \<lparr>handX = 150, handY = 490, handPinch = True\<rparr>)] main_new)
     = knobs (main_loop
        [([], \<lambda>i. \<lparr>handX = 150, handY = 540, handPinch = True\<rparr>),
         ([SDL_MOUSEBUTTONUP 3, SDL_OTHER, SDL_MOUSEMOTION 7 7],
          \<lambda>i. \<lparr>handX = 150, handY = 490, handPinch = True\<rparr>)] main_new)
   \<and> data (main_loop
        [([SDL_MOUSEMOTION 150 540, SDL_MOUSEBUTTONDOWN 1],
          \<lambda>i. \<lparr>handX = 150, handY = 540, handPinch = True\<rparr>),
         ([SDL_OTHER], \<lambda>i. \<lparr>handX = 150, handY = 490, handPinch = True\<rparr>)] main_new)
     = data (main_loop
        [([], \<lambda>i. \<lparr>handX = 150, handY = 540, handPinch = True\<rparr>),
         ([SDL_MOUSEBUTTONUP 3, SDL_OTHER, SDL_MOUSEMOTION 7 7],
          \<lambda>i. \<lparr>handX = 150, handY = 490, handPinch = True\<rparr>)] main_new)"
proof -
  let ?in1 = "[([SDL_MOUSEMOTION 150 540, SDL_MOUSEBUTTONDOWN 1],
       \<lambda>i. \<lparr>handX = 150, handY = 540, handPinch = True\<rparr>),
      ([SDL_OTHER], \<lambda>i. \<lparr>handX = 150, handY = 490, handPinch = True\<rparr>)]"
  let ?in2 = "[([], \<lambda>i. \<lparr>handX = 150, handY = 540, handPinch = True\<rparr>),
      ([SDL_MOUSEBUTTONUP 3, SDL_OTHER, SDL_MOUSEMOTION 7 7],
       \<lambda>i. \<lparr>handX = 150, handY = 490, handPinch = True\<rparr>)]"
  have h: "without_mouse ?in1 = without_mouse ?in2"
    by (simp add: without_mouse_def)
  from knobs_depend_on_hand_pointer_only [OF h refl refl refl, of main_new] h
  show ?thesis by blast
qed

end
